theory Spec2Isabelle
  imports Main
begin

section \<open>The schema objects read by protoparser.js\<close>

text \<open>
  The parser works on the reflection objects of the protobufjs library: a root, namespaces,
  message types with their fields, enums and services. The library is not part of the
  repository, so its objects are data here and its lookups are components of the root that
  the theorems quantify over.

  A field carries its \<open>name\<close>, the declared \<open>type\<close> string, the \<open>rule\<close>
  (\<open>undefined\<close> is \<open>None\<close>) and \<open>resolvedType\<close>, a reference to another object of the
  schema (\<open>null\<close> is \<open>None\<close>). A reference is followed through the root's \<open>resolved\<close>
  component, so a message can refer to itself.
\<close>

type_synonym ref = string

datatype field =
  Field (name: string) (type: string) (rule: "string option") (resolvedType: "ref option")

text \<open>The \<open>values\<close> object of an enum, name to number, in declaration order.\<close>

datatype penum = Enum (enumName: string) (enumValues: "(string \<times> int) list")

datatype pmethod = Method (requestType: string) (responseType: string)

text \<open>
  \<open>nested\<close> is the object of lexically nested declarations, in insertion order; an
  absent \<open>nested\<close> is the empty list, which the code treats alike
  (\<open>namespace.nested || {}\<close>, \<open>parentType.nested && ...\<close>).
\<close>

datatype ptype =
  Type (typeName: string) (fieldsArray: "field list") (nested: "(string \<times> reflection) list")
and reflection =
    TypeObject ptype
  | EnumObject penum
  | ServiceObject string "(string \<times> pmethod) list"
  | NamespaceObject string "(string \<times> reflection) list"
  | OtherObject

text \<open>
  The root: its nested declarations and the three lookups the code calls. A lookup that
  throws is \<open>None\<close>. \<open>lookupType\<close> only ever returns message types and
  \<open>lookupEnum\<close> only enums, which their result types express.
\<close>

record root =
  rootNested :: "(string \<times> reflection) list"
  lookupType :: "string \<Rightarrow> ptype option"
  lookupTypeOrEnum :: "string \<Rightarrow> reflection option"
  lookupEnum :: "string \<Rightarrow> penum option"
  resolved :: "ref \<Rightarrow> reflection"

section \<open>JSON values and JavaScript objects\<close>

text \<open>
  JavaScript has one number type, so the literals \<open>0\<close> and \<open>0.0\<close> of the source are
  the same value \<open>JNumber 0\<close>. An object is the list of its entries in insertion order.
\<close>

datatype json =
    JString string
  | JBool bool
  | JNumber int
  | JArray "json list"
  | JObject "(string \<times> json) list"

text \<open>\<open>obj[k] = v\<close>: an existing key keeps its place, a new key goes last.\<close>

fun assign :: "(string \<times> 'v) list \<Rightarrow> string \<Rightarrow> 'v \<Rightarrow> (string \<times> 'v) list" where
  "assign [] k v = [(k, v)]"
| "assign ((k', v') # kvs) k v =
     (if k' = k then (k, v) # kvs else (k', v') # assign kvs k v)"

text \<open>
  \<open>values.length > 0 ? values[0] : ''\<close> for \<open>values = Object.keys(enumType.values)\<close>.
  The names of enum values are identifiers, so \<open>Object.keys\<close> gives them in the order
  in which they were declared.
\<close>

definition firstKey :: "(string \<times> int) list \<Rightarrow> json" where
  "firstKey vs = (case map fst vs of [] \<Rightarrow> JString '''' | k # _ \<Rightarrow> JString k)"

section \<open>Template generation\<close>

text \<open>The \<open>switch\<close> of \<open>getEmptyValueForType\<close>; \<open>None\<close> is its \<open>default\<close> branch.\<close>

definition primitiveCase :: "string \<Rightarrow> json option" where
  "primitiveCase fieldType =
     (if fieldType = ''string'' then Some (JString '''')
      else if fieldType = ''bool'' then Some (JBool False)
      else if fieldType \<in> set [''int32'', ''int64'', ''uint32'', ''uint64'', ''sint32'',
                ''sint64'', ''fixed32'', ''fixed64'', ''sfixed32'', ''sfixed64'']
        then Some (JNumber 0)
      else if fieldType = ''float'' \<or> fieldType = ''double'' then Some (JNumber 0)
      else if fieldType = ''bytes'' then Some (JString '''')
      else None)"

definition timestampName :: string where
  "timestampName = ''google.protobuf.Timestamp''"

text \<open>
  \<open>generateEmptyJsonTemplate\<close> and \<open>getEmptyValueForType\<close> call each other with no bound
  on the depth. The first argument counts the calls of \<open>generateEmptyJsonTemplate\<close> that
  may still be nested; \<open>None\<close> says that this number did not suffice. The source has no
  such counter: a result \<open>Some v\<close> is what the JavaScript returns, and \<open>None\<close> at every
  number says that the recursion is unbounded, so that it ends only where the call stack
  of the engine does (see the section on the bounded call stack).

  \<open>templateFields\<close> is the \<open>for\<close> loop over \<open>messageType.fieldsArray\<close>, with the
  template built so far. \<open>lookupGlobal\<close> is the \<open>try\<close> block of
  \<open>getEmptyValueForType\<close> with its nested \<open>catch\<close> blocks and the final
  \<open>return ''\<close>. The value of a repeated field is computed before it is replaced by the
  empty array, as in the source.
\<close>

function generateEmptyJsonTemplate :: "nat \<Rightarrow> root \<Rightarrow> ptype \<Rightarrow> json option"
  and templateFields ::
    "nat \<Rightarrow> root \<Rightarrow> ptype \<Rightarrow> field list \<Rightarrow> (string \<times> json) list
      \<Rightarrow> (string \<times> json) list option"
  and getEmptyValueForType :: "nat \<Rightarrow> string \<Rightarrow> root \<Rightarrow> ptype \<Rightarrow> json option"
  and lookupGlobal :: "nat \<Rightarrow> string \<Rightarrow> root \<Rightarrow> json option"
where
  "generateEmptyJsonTemplate 0 S messageType = None"
| "generateEmptyJsonTemplate (Suc n) S messageType =
     map_option JObject (templateFields n S messageType (fieldsArray messageType) [])"
| "templateFields n S messageType [] template = Some template"
| "templateFields n S messageType (f # fs) template =
     (case getEmptyValueForType n (type f) S messageType of
        None \<Rightarrow> None
      | Some emptyValue \<Rightarrow>
          templateFields n S messageType fs
            (assign template (name f)
               (if rule f = Some ''repeated'' then JArray [] else emptyValue)))"
| "getEmptyValueForType n fieldType S parentType =
     (case primitiveCase fieldType of
        Some v \<Rightarrow> Some v
      | None \<Rightarrow>
          if fieldType = timestampName then Some (JString '''')
          else (case map_of (nested parentType) fieldType of
                  Some (TypeObject nestedType) \<Rightarrow> generateEmptyJsonTemplate n S nestedType
                | Some (EnumObject nestedType) \<Rightarrow> Some (firstKey (enumValues nestedType))
                | _ \<Rightarrow> lookupGlobal n fieldType S))"
| "lookupGlobal n fieldType S =
     (case lookupType S fieldType of
        Some nestedType \<Rightarrow> generateEmptyJsonTemplate n S nestedType
      | None \<Rightarrow>
          (case lookupTypeOrEnum S fieldType of
             Some (TypeObject nestedType) \<Rightarrow> generateEmptyJsonTemplate n S nestedType
           | Some (EnumObject nestedType) \<Rightarrow> Some (firstKey (enumValues nestedType))
           | Some _ \<Rightarrow> Some (JString '''')
           | None \<Rightarrow>
               (case lookupEnum S fieldType of
                  Some enumType \<Rightarrow> Some (firstKey (enumValues enumType))
                | None \<Rightarrow> Some (JString ''''))))"
  by pat_completeness auto
termination
  by (relation "inv_image (less_than <*lex*> less_than) (\<lambda>x. case x of
        Inl (Inl (n, S, t)) \<Rightarrow> (n, 0)
      | Inl (Inr (n, S, t, fs, tpl)) \<Rightarrow> (n, 3 + length fs)
      | Inr (Inl (n, ft, S, t)) \<Rightarrow> (n, 2)
      | Inr (Inr (n, ft, S)) \<Rightarrow> (n, 1))") auto

text \<open>
  The built-in message that \<open>parseProtoContent\<close> and \<open>getOptionalFieldsMap\<close> add to
  the root under \<open>google.protobuf\<close> before parsing. The source writes
  \<open>new protobuf.Type('Timestamp').add(seconds, nanos)\<close> with two field objects, but
  \<open>add\<close> of the library takes one object: the type that is built has the field
  \<open>seconds\<close> only, and \<open>nanos\<close> is dropped.
\<close>

definition timestampType :: ptype where
  "timestampType = Type ''Timestamp'' [Field ''seconds'' ''int64'' None None] []"

section \<open>What a declared type name stands for\<close>

text \<open>
  The object a declared type name that is neither a primitive nor the timestamp spelling
  resolves to, in the order of the code: a message or enum nested in the enclosing message,
  then \<open>lookupType\<close>, then \<open>lookupTypeOrEnum\<close>, then \<open>lookupEnum\<close>.
\<close>

definition resolveType :: "root \<Rightarrow> ptype \<Rightarrow> string \<Rightarrow> reflection option" where
  "resolveType S parentType fieldType =
     (case map_of (nested parentType) fieldType of
        Some (TypeObject nestedType) \<Rightarrow> Some (TypeObject nestedType)
      | Some (EnumObject nestedType) \<Rightarrow> Some (EnumObject nestedType)
      | _ \<Rightarrow>
          (case lookupType S fieldType of
             Some nestedType \<Rightarrow> Some (TypeObject nestedType)
           | None \<Rightarrow>
               (case lookupTypeOrEnum S fieldType of
                  Some (TypeObject nestedType) \<Rightarrow> Some (TypeObject nestedType)
                | Some (EnumObject nestedType) \<Rightarrow> Some (EnumObject nestedType)
                | Some _ \<Rightarrow> None
                | None \<Rightarrow> map_option EnumObject (lookupEnum S fieldType))))"

definition scalarName :: "string \<Rightarrow> bool" where
  "scalarName fieldType = (primitiveCase fieldType \<noteq> None \<or> fieldType = timestampName)"

text \<open>The message type that template generation recurses into for a declared type.\<close>

definition messageOf :: "root \<Rightarrow> ptype \<Rightarrow> string \<Rightarrow> ptype option" where
  "messageOf S parentType fieldType =
     (if scalarName fieldType then None
      else (case resolveType S parentType fieldType of
              Some (TypeObject nestedType) \<Rightarrow> Some nestedType
            | _ \<Rightarrow> None))"

section \<open>Template generation on a bounded call stack\<close>



section \<open>Optional-field extraction\<close>

text \<open>
  The template strings \<open>prefix ? `${prefix}.${x}` : x\<close> of the source: an empty prefix
  is falsy.
\<close>

definition dotted :: "string \<Rightarrow> string \<Rightarrow> string" where
  "dotted prefix x = (if prefix \<noteq> [] then prefix @ ''.'' @ x else x)"

text \<open>
  The message type that \<open>extractOptionalFieldsRecursive\<close> recurses into for a field:
  the field's \<open>resolvedType\<close> when that is a message type, otherwise the message type
  nested in the current type under the field's declared type name, otherwise none.
\<close>

definition resolvedMessage :: "root \<Rightarrow> field \<Rightarrow> ptype option" where
  "resolvedMessage S f =
     (case resolvedType f of
        None \<Rightarrow> None
      | Some r \<Rightarrow> (case resolved S r of TypeObject rt \<Rightarrow> Some rt | _ \<Rightarrow> None))"

definition descendInto :: "root \<Rightarrow> ptype \<Rightarrow> field \<Rightarrow> ptype option" where
  "descendInto S t f =
     (case resolvedMessage S f of
        Some rt \<Rightarrow> Some rt
      | None \<Rightarrow>
          (case map_of (nested t) (type f) of
             Some (TypeObject nestedType) \<Rightarrow> Some nestedType
           | _ \<Rightarrow> None))"

text \<open>
  \<open>extractOptionalFieldsRecursive\<close>, the inner function of
  \<open>getOptionalFieldsFromTypeWithExplicit\<close>. The set \<open>explicitOptionalFields\<close> is the
  list \<open>E\<close>, the array \<open>optionalFields\<close> that the source pushes to is passed along and
  returned. The first argument bounds the nesting of calls as for template generation.
  \<open>extractFields\<close> is the \<open>for\<close> loop over \<open>type.fieldsArray\<close>.
\<close>

function extractOptionalFieldsRecursive ::
    "nat \<Rightarrow> root \<Rightarrow> string list \<Rightarrow> ptype \<Rightarrow> string \<Rightarrow> string \<Rightarrow> string list
      \<Rightarrow> string list option"
  and extractFields ::
    "nat \<Rightarrow> root \<Rightarrow> string list \<Rightarrow> ptype \<Rightarrow> string \<Rightarrow> string \<Rightarrow> field list
      \<Rightarrow> string list \<Rightarrow> string list option"
where
  "extractOptionalFieldsRecursive 0 S E t fieldPrefix typePrefix optionalFields = None"
| "extractOptionalFieldsRecursive (Suc n) S E t fieldPrefix typePrefix optionalFields =
     extractFields n S E t fieldPrefix typePrefix (fieldsArray t) optionalFields"
| "extractFields n S E t fieldPrefix typePrefix [] optionalFields = Some optionalFields"
| "extractFields n S E t fieldPrefix typePrefix (f # fs) optionalFields =
     (let fieldPath = dotted fieldPrefix (name f);
          typePath = dotted typePrefix (typeName t @ ''.'' @ name f);
          pushed = (if typePath \<in> set E then optionalFields @ [fieldPath]
                    else optionalFields)
      in case descendInto S t f of
           None \<Rightarrow> extractFields n S E t fieldPrefix typePrefix fs pushed
         | Some nestedType \<Rightarrow>
             (case extractOptionalFieldsRecursive n S E nestedType fieldPath
                     (dotted typePrefix (typeName t)) pushed of
                None \<Rightarrow> None
              | Some deeper \<Rightarrow> extractFields n S E t fieldPrefix typePrefix fs deeper))"
  by pat_completeness auto
termination
  by (relation "inv_image (less_than <*lex*> less_than) (\<lambda>x. case x of
        Inl (n, S, E, t, fp, tp, acc) \<Rightarrow> (n, 0)
      | Inr (n, S, E, t, fp, tp, fs, acc) \<Rightarrow> (n, 1 + length fs))") auto

definition getOptionalFieldsFromTypeWithExplicit ::
    "nat \<Rightarrow> root \<Rightarrow> ptype \<Rightarrow> string list \<Rightarrow> string list option" where
  "getOptionalFieldsFromTypeWithExplicit n S messageType explicitOptionalFields =
     extractOptionalFieldsRecursive n S explicitOptionalFields messageType [] [] []"

section \<open>The method catalogs\<close>

text \<open>
  The body of the \<open>try\<close> in \<open>extractServices\<close> with its \<open>catch\<close>: the value stored for
  a method. A failed \<open>root.lookupType\<close> is caught and gives the empty object.
\<close>

definition methodTemplate :: "nat \<Rightarrow> root \<Rightarrow> pmethod \<Rightarrow> json option" where
  "methodTemplate n S m =
     (case lookupType S (requestType m) of
        None \<Rightarrow> Some (JObject [])
      | Some rt \<Rightarrow> generateEmptyJsonTemplate n S rt)"

text \<open>The loop over \<open>Object.entries(nested.methods)\<close>.\<close>

fun serviceMethods ::
    "nat \<Rightarrow> root \<Rightarrow> (string \<times> pmethod) list \<Rightarrow> (string \<times> json) list
      \<Rightarrow> (string \<times> json) list option" where
  "serviceMethods n S [] methodMap = Some methodMap"
| "serviceMethods n S ((methodName, m) # ms) methodMap =
     (case methodTemplate n S m of
        None \<Rightarrow> None
      | Some jsonTemplate \<Rightarrow> serviceMethods n S ms (assign methodMap methodName jsonTemplate))"

text \<open>
  \<open>extractServices(namespace)\<close>, given the entries of \<open>namespace.nested\<close>. A service has
  its methods processed; any other entry with a \<open>nested\<close> object (a namespace, or a
  message type) is walked recursively. The \<open>prefix\<close> argument of the source is only
  passed along and is left out.
\<close>

fun extractServices ::
    "nat \<Rightarrow> root \<Rightarrow> (string \<times> reflection) list \<Rightarrow> (string \<times> json) list
      \<Rightarrow> (string \<times> json) list option" where
  "extractServices n S [] methodMap = Some methodMap"
| "extractServices n S ((nm, ServiceObject sn ms) # rest) methodMap =
     (case serviceMethods n S ms methodMap of
        None \<Rightarrow> None
      | Some methodMap' \<Rightarrow> extractServices n S rest methodMap')"
| "extractServices n S ((nm, NamespaceObject nn ns) # rest) methodMap =
     (case extractServices n S ns methodMap of
        None \<Rightarrow> None
      | Some methodMap' \<Rightarrow> extractServices n S rest methodMap')"
| "extractServices n S ((nm, TypeObject (Type tn fs ns)) # rest) methodMap =
     (case extractServices n S ns methodMap of
        None \<Rightarrow> None
      | Some methodMap' \<Rightarrow> extractServices n S rest methodMap')"
| "extractServices n S ((nm, EnumObject e) # rest) methodMap =
     extractServices n S rest methodMap"
| "extractServices n S ((nm, OtherObject) # rest) methodMap =
     extractServices n S rest methodMap"

text \<open>
  \<open>parseProtoContent\<close> after \<open>protobuf.parse\<close> has filled the root \<open>S\<close>: the walk
  starts at the root with an empty \<open>methodMap\<close>.
\<close>

definition parseProtoContent :: "nat \<Rightarrow> root \<Rightarrow> (string \<times> json) list option" where
  "parseProtoContent n S = extractServices n S (rootNested S) []"

text \<open>The same walk in \<open>getOptionalFieldsMap\<close>, storing optional-field lists.\<close>

definition methodOptionalFields ::
    "nat \<Rightarrow> root \<Rightarrow> string list \<Rightarrow> pmethod \<Rightarrow> string list option" where
  "methodOptionalFields n S E m =
     (case lookupType S (requestType m) of
        None \<Rightarrow> Some []
      | Some rt \<Rightarrow> getOptionalFieldsFromTypeWithExplicit n S rt E)"

fun serviceOptionalFields ::
    "nat \<Rightarrow> root \<Rightarrow> string list \<Rightarrow> (string \<times> pmethod) list \<Rightarrow> (string \<times> string list) list
      \<Rightarrow> (string \<times> string list) list option" where
  "serviceOptionalFields n S E [] optionalFieldsMap = Some optionalFieldsMap"
| "serviceOptionalFields n S E ((methodName, m) # ms) optionalFieldsMap =
     (case methodOptionalFields n S E m of
        None \<Rightarrow> None
      | Some optionalFields \<Rightarrow>
          serviceOptionalFields n S E ms (assign optionalFieldsMap methodName optionalFields))"

fun extractOptionalFields ::
    "nat \<Rightarrow> root \<Rightarrow> string list \<Rightarrow> (string \<times> reflection) list
      \<Rightarrow> (string \<times> string list) list \<Rightarrow> (string \<times> string list) list option" where
  "extractOptionalFields n S E [] optionalFieldsMap = Some optionalFieldsMap"
| "extractOptionalFields n S E ((nm, ServiceObject sn ms) # rest) optionalFieldsMap =
     (case serviceOptionalFields n S E ms optionalFieldsMap of
        None \<Rightarrow> None
      | Some optionalFieldsMap' \<Rightarrow> extractOptionalFields n S E rest optionalFieldsMap')"
| "extractOptionalFields n S E ((nm, NamespaceObject nn ns) # rest) optionalFieldsMap =
     (case extractOptionalFields n S E ns optionalFieldsMap of
        None \<Rightarrow> None
      | Some optionalFieldsMap' \<Rightarrow> extractOptionalFields n S E rest optionalFieldsMap')"
| "extractOptionalFields n S E ((nm, TypeObject (Type tn fs ns)) # rest) optionalFieldsMap =
     (case extractOptionalFields n S E ns optionalFieldsMap of
        None \<Rightarrow> None
      | Some optionalFieldsMap' \<Rightarrow> extractOptionalFields n S E rest optionalFieldsMap')"
| "extractOptionalFields n S E ((nm, EnumObject e) # rest) optionalFieldsMap =
     extractOptionalFields n S E rest optionalFieldsMap"
| "extractOptionalFields n S E ((nm, OtherObject) # rest) optionalFieldsMap =
     extractOptionalFields n S E rest optionalFieldsMap"

section \<open>The textual scan for the optional keyword\<close>

text \<open>
  A character is a code unit below 256. \<open>isSpace\<close> is what \<open>trim\<close> strips and
  \<open>\s\<close> matches in that range (tab, line feed, vertical tab, form feed, carriage
  return, space, no-break space); \<open>isWord\<close> is \<open>\w\<close>; \<open>isTypeChar\<close> is \<open>[\w.]\<close>.
\<close>

definition isSpace :: "char \<Rightarrow> bool" where
  "isSpace c = (c \<in> set [CHR 0x09, CHR 0x0A, CHR 0x0B, CHR 0x0C, CHR 0x0D, CHR '' '', CHR 0xA0])"

definition isWord :: "char \<Rightarrow> bool" where
  "isWord c =
     (let k = (of_char c :: nat)
      in (97 \<le> k \<and> k \<le> 122) \<or> (65 \<le> k \<and> k \<le> 90) \<or> (48 \<le> k \<and> k \<le> 57) \<or> k = 95)"

definition isTypeChar :: "char \<Rightarrow> bool" where
  "isTypeChar c = (isWord c \<or> c = CHR ''.'')"

definition trim :: "string \<Rightarrow> string" where
  "trim s = rev (dropWhile isSpace (rev (dropWhile isSpace s)))"

definition startsWith :: "string \<Rightarrow> string \<Rightarrow> bool" where
  "startsWith s p = (take (length p) s = p)"

text \<open>\<open>s.split(c)\<close>: one more piece than there are separators.\<close>

fun split :: "char \<Rightarrow> string \<Rightarrow> string list" where
  "split c [] = [[]]"
| "split c (x # xs) =
     (if x = c then [] # split c xs
      else (case split c xs of l # ls \<Rightarrow> (x # l) # ls | [] \<Rightarrow> [[x]]))"

text \<open>\<open>(line.match(/{/g) || []).length\<close>\<close>

definition countChar :: "char \<Rightarrow> string \<Rightarrow> nat" where
  "countChar c s = length (filter (\<lambda>x. x = c) s)"

text \<open>\<open>messageStack.join('.')\<close>\<close>

fun join :: "string list \<Rightarrow> string" where
  "join [] = []"
| "join [x] = x"
| "join (x # y # ys) = x @ ''.'' @ join (y # ys)"

text \<open>
  \<open>trimmedLine.match(/^\s*message\s+(\w+)/)\<close>, giving the captured name. The
  character classes that follow each other are disjoint, so every repetition takes the
  longest run.
\<close>

definition messageMatch :: "string \<Rightarrow> string option" where
  "messageMatch s =
     (let s1 = dropWhile isSpace s
      in if startsWith s1 ''message'' then
           (let s2 = drop 7 s1;
                messageName = takeWhile isWord (dropWhile isSpace s2)
            in if takeWhile isSpace s2 \<noteq> [] \<and> messageName \<noteq> [] then Some messageName
               else None)
         else None)"

text \<open>
  \<open>/optional\s+[\w.]+\s+(\w+)\s*=/\<close> is not anchored: \<open>optionalAt\<close> matches it at the
  head of a string, \<open>fieldMatch\<close> tries every start from the left and gives the captured
  field name of the first match.
\<close>

definition optionalAt :: "string \<Rightarrow> string option" where
  "optionalAt s =
     (if startsWith s ''optional'' then
        (let s1 = drop 8 s;
             s2 = dropWhile isSpace s1;
             s3 = dropWhile isTypeChar s2;
             s4 = dropWhile isSpace s3;
             fieldName = takeWhile isWord s4;
             s5 = dropWhile isSpace (dropWhile isWord s4)
         in if takeWhile isSpace s1 \<noteq> [] \<and> takeWhile isTypeChar s2 \<noteq> [] \<and>
               takeWhile isSpace s3 \<noteq> [] \<and> fieldName \<noteq> [] \<and> startsWith s5 ''=''
            then Some fieldName else None)
      else None)"

fun fieldMatch :: "string \<Rightarrow> string option" where
  "fieldMatch [] = None"
| "fieldMatch (c # cs) =
     (case optionalAt (c # cs) of Some fieldName \<Rightarrow> Some fieldName | None \<Rightarrow> fieldMatch cs)"

text \<open>
  The inner loop \<open>for (j < closeBraces) if (messageStack.length > 0) messageStack.pop()\<close>;
  the top of the stack is the end of the list.
\<close>

fun popMessages :: "nat \<Rightarrow> string list \<Rightarrow> string list" where
  "popMessages 0 messageStack = messageStack"
| "popMessages (Suc j) messageStack =
     popMessages j (if messageStack \<noteq> [] then butlast messageStack else messageStack)"

text \<open>\<open>Set.add\<close> on a set kept in insertion order.\<close>

definition setAdd :: "string list \<Rightarrow> string \<Rightarrow> string list" where
  "setAdd xs x = (if x \<in> set xs then xs else xs @ [x])"

record scanState =
  messageStack :: "string list"
  braceDepth :: int
  explicitOptionalFields :: "string list"

text \<open>The body of the loop over the lines of \<open>parseExplicitOptionalFields\<close>.\<close>

definition scanLine :: "scanState \<Rightarrow> string \<Rightarrow> scanState" where
  "scanLine st line =
     (let trimmedLine = trim line
      in if startsWith trimmedLine ''//'' \<or> trimmedLine = [] then st
         else
           (let pushed = (case messageMatch trimmedLine of
                            Some messageName \<Rightarrow> messageStack st @ [messageName]
                          | None \<Rightarrow> messageStack st);
                openBraces = countChar (CHR ''{'') line;
                closeBraces = countChar (CHR ''}'') line;
                popped = (if closeBraces > 0 \<and> pushed \<noteq> []
                          then popMessages closeBraces pushed else pushed)
            in \<lparr> messageStack = popped,
                 braceDepth = braceDepth st + int openBraces - int closeBraces,
                 explicitOptionalFields =
                   (if startsWith trimmedLine ''optional '' then
                      (case fieldMatch trimmedLine of
                         Some fieldName \<Rightarrow>
                           setAdd (explicitOptionalFields st)
                             (if popped \<noteq> [] then join popped @ ''.'' @ fieldName
                              else fieldName)
                       | None \<Rightarrow> explicitOptionalFields st)
                    else explicitOptionalFields st) \<rparr>))"

definition parseExplicitOptionalFields :: "string \<Rightarrow> string list" where
  "parseExplicitOptionalFields protoContent =
     explicitOptionalFields
       (foldl scanLine \<lparr> messageStack = [], braceDepth = 0, explicitOptionalFields = [] \<rparr>
          (split (CHR 0x0A) protoContent))"

text \<open>
  \<open>getOptionalFieldsMap\<close> after \<open>protobuf.parse\<close> has filled the root \<open>S\<close> from
  \<open>protoContent\<close>: the scan of the text, then the walk from the root.
\<close>

definition getOptionalFieldsMap ::
    "nat \<Rightarrow> root \<Rightarrow> string \<Rightarrow> (string \<times> string list) list option" where
  "getOptionalFieldsMap n S protoContent =
     extractOptionalFields n S (parseExplicitOptionalFields protoContent) (rootNested S) []"

section \<open>Notions used to state the properties\<close>

text \<open>\<open>v[k]\<close> for a JSON value \<open>v\<close>: defined on objects that have the key.\<close>

definition member :: "json \<Rightarrow> string \<Rightarrow> json option" where
  "member v k = (case v of JObject kvs \<Rightarrow> map_of kvs k | _ \<Rightarrow> None)"

text \<open>
  The dotted paths that address a key of a JSON value: every key of an object, and every
  key followed by a dot and a path into the value stored under it. An array has no keys.
\<close>

fun keyPaths :: "json \<Rightarrow> string list" where
  "keyPaths (JObject kvs) =
     concat (map (\<lambda>kv. fst kv # map (\<lambda>p. fst kv @ ''.'' @ p) (keyPaths (snd kv))) kvs)"
| "keyPaths v = []"

text \<open>
  The methods in the order in which the walk from a namespace reaches them: the entries
  in order, a service giving its methods, a namespace or message type its nested
  entries.
\<close>

fun visitedMethods :: "(string \<times> reflection) list \<Rightarrow> (string \<times> pmethod) list" where
  "visitedMethods [] = []"
| "visitedMethods ((nm, ServiceObject sn ms) # rest) = ms @ visitedMethods rest"
| "visitedMethods ((nm, NamespaceObject nn ns) # rest) = visitedMethods ns @ visitedMethods rest"
| "visitedMethods ((nm, TypeObject (Type tn fs ns)) # rest) =
     visitedMethods ns @ visitedMethods rest"
| "visitedMethods ((nm, EnumObject e) # rest) = visitedMethods rest"
| "visitedMethods ((nm, OtherObject) # rest) = visitedMethods rest"

text \<open>The last entry of a list of pairs under a key.\<close>

definition lastNamed :: "string \<Rightarrow> (string \<times> 'a) list \<Rightarrow> 'a option" where
  "lastNamed k es = map_of (rev es) k"

text \<open>
  \<open>wellNamed n S t\<close>: down to \<open>n\<close> levels of descent from \<open>t\<close>, the field names of
  a message are non-empty and distinct, as identifiers that are the keys of \<open>fields\<close>
  are.
\<close>

fun wellNamed :: "nat \<Rightarrow> root \<Rightarrow> ptype \<Rightarrow> bool" where
  "wellNamed 0 S t = True"
| "wellNamed (Suc n) S t =
     (distinct (map name (fieldsArray t)) \<and>
      list_all (\<lambda>f. name f \<noteq> [] \<and>
         (case descendInto S t f of
            None \<Rightarrow> True
          | Some nestedType \<Rightarrow> wellNamed n S nestedType))
        (fieldsArray t))"

text \<open>
  \<open>strayFields n S t fieldPrefix\<close>: the occurrence paths of the fields, down to \<open>n\<close>
  levels from \<open>t\<close>, at which the extractor and the template generator part: the
  extractor descends into a message type there, while the field is repeated or has
  another value than the template of that message type in the generator. Below such a
  field the search is not continued.
\<close>

fun strayFields :: "nat \<Rightarrow> root \<Rightarrow> ptype \<Rightarrow> string \<Rightarrow> string list" where
  "strayFields 0 S t fieldPrefix = []"
| "strayFields (Suc n) S t fieldPrefix =
     concat (map (\<lambda>f.
        case descendInto S t f of
          None \<Rightarrow> []
        | Some nestedType \<Rightarrow>
            if rule f \<noteq> Some ''repeated'' \<and> messageOf S t (type f) = Some nestedType
            then strayFields n S nestedType (dotted fieldPrefix (name f))
            else [dotted fieldPrefix (name f)])
       (fieldsArray t))"

text \<open>
  \<open>descending S rk\<close>: the rank \<open>rk\<close> of a message type is above the rank of every
  message type that template generation or optional-field extraction reaches from one of
  its fields in one step.
\<close>

definition descending :: "root \<Rightarrow> (ptype \<Rightarrow> nat) \<Rightarrow> bool" where
  "descending S rk =
     (\<forall>t f nestedType. f \<in> set (fieldsArray t) \<and>
         (messageOf S t (type f) = Some nestedType \<or> descendInto S t f = Some nestedType)
         \<longrightarrow> rk nestedType < rk t)"

text \<open>The lines of a proto file, each ended by a line feed.\<close>

definition unlines :: "string list \<Rightarrow> string" where
  "unlines ls = concat (map (\<lambda>l. l @ [CHR 0x0A]) ls)"

text \<open>
  Storing one value per method under its bare name, in order, stopping when a value is
  not available: what both walks do with the methods they reach.
\<close>

fun storeAll ::
    "('m \<Rightarrow> 'v option) \<Rightarrow> (string \<times> 'm) list \<Rightarrow> (string \<times> 'v) list
      \<Rightarrow> (string \<times> 'v) list option" where
  "storeAll g [] acc = Some acc"
| "storeAll g ((k, m) # ms) acc =
     (case g m of None \<Rightarrow> None | Some v \<Rightarrow> storeAll g ms (assign acc k v))"


text \<open>
  A rank given by levels: the listed message types have their level, every other message
  type lies above all levels by its size.
\<close>

definition rankOf :: "(ptype \<times> nat) list \<Rightarrow> ptype \<Rightarrow> nat" where
  "rankOf levels t =
     (case map_of levels t of
        Some l \<Rightarrow> l
      | None \<Rightarrow> Suc (foldr max (map snd levels) 0) + size t)"

section \<open>Example schemas\<close>

text \<open>
  A message with a field of every kind, and a root that resolves the names it uses:
  \<^verbatim>\<open>
  enum E { B = 0; A = 1; }
  message Item { int64 id = 1; }
  message Sample { string s = 1; bytes raw = 2; bool ok = 3; uint64 count = 4;
    double ratio = 5; Missing ghost = 6; E e = 7;
    google.protobuf.Timestamp created_at = 8; .google.protobuf.Timestamp updated_at = 9;
    repeated string names = 10; repeated Item items = 11; repeated E colors = 12;
    repeated Missing ghosts = 13; }
  \<close>
\<close>

definition orderEnum :: penum where
  "orderEnum = Enum ''E'' [(''B'', 0), (''A'', 1)]"

definition itemType :: ptype where
  "itemType = Type ''Item'' [Field ''id'' ''int64'' None None] []"

definition sampleType :: ptype where
  "sampleType = Type ''Sample''
     [Field ''s'' ''string'' None None,
      Field ''raw'' ''bytes'' None None,
      Field ''ok'' ''bool'' None None,
      Field ''count'' ''uint64'' None None,
      Field ''ratio'' ''double'' None None,
      Field ''ghost'' ''Missing'' None None,
      Field ''e'' ''E'' None None,
      Field ''created_at'' ''google.protobuf.Timestamp'' None None,
      Field ''updated_at'' ''.google.protobuf.Timestamp'' None None,
      Field ''names'' ''string'' (Some ''repeated'') None,
      Field ''items'' ''Item'' (Some ''repeated'') None,
      Field ''colors'' ''E'' (Some ''repeated'') None,
      Field ''ghosts'' ''Missing'' (Some ''repeated'') None]
     []"

definition googleNamespace :: "string \<times> reflection" where
  "googleNamespace =
     (''google'', NamespaceObject ''google''
        [(''protobuf'', NamespaceObject ''protobuf''
           [(''Timestamp'', TypeObject timestampType)])])"

definition sampleRoot :: root where
  "sampleRoot = \<lparr>
     rootNested =
       [googleNamespace,
        (''E'', EnumObject orderEnum),
        (''Item'', TypeObject itemType),
        (''Sample'', TypeObject sampleType)],
     lookupType = (\<lambda>p.
        if p = ''Sample'' then Some sampleType
        else if p = ''Item'' then Some itemType
        else if p = ''google.protobuf.Timestamp'' \<or> p = ''.google.protobuf.Timestamp''
          then Some timestampType
        else None),
     lookupTypeOrEnum = (\<lambda>p.
        if p = ''Sample'' then Some (TypeObject sampleType)
        else if p = ''Item'' then Some (TypeObject itemType)
        else if p = ''google.protobuf.Timestamp'' \<or> p = ''.google.protobuf.Timestamp''
          then Some (TypeObject timestampType)
        else if p = ''E'' then Some (EnumObject orderEnum)
        else None),
     lookupEnum = (\<lambda>p. if p = ''E'' then Some orderEnum else None),
     resolved = (\<lambda>r. OtherObject) \<rparr>"




text \<open>
  A message with a repeated field declared with the exact timestamp spelling and a
  singular field declared with a leading dot:
  \<^verbatim>\<open>
  message Stamps {
    repeated google.protobuf.Timestamp history = 1;
    .google.protobuf.Timestamp updated_at = 2;
  }
  \<close>
\<close>

definition stampsType :: ptype where
  "stampsType = Type ''Stamps''
     [Field ''history'' ''google.protobuf.Timestamp'' (Some ''repeated'') None,
      Field ''updated_at'' ''.google.protobuf.Timestamp'' None None]
     []"

text \<open>A rank for the sample root: the types it looks up lie below every other type.\<close>

definition sampleRank :: "ptype \<Rightarrow> nat" where
  "sampleRank t =
     (if t = itemType \<or> t = timestampType then 0
      else if t = sampleType then 1
      else 2 + size t)"

text \<open>
  An optional field declared after a nested enum, and the message as parsed:
  \<^verbatim>\<open>
  message M {
    enum Color {
      RED = 0;
    }
    optional int32 age = 2;
  }
  \<close>
\<close>

definition enumFirstProto :: string where
  "enumFirstProto = unlines
     [''message M {'',
      ''  enum Color {'',
      ''    RED = 0;'',
      ''  }'',
      ''  optional int32 age = 2;'',
      ''}'']"

definition enumFirstType :: ptype where
  "enumFirstType = Type ''M'' [Field ''age'' ''int32'' None None]
     [(''Color'', EnumObject (Enum ''Color'' [(''RED'', 0)]))]"

text \<open>The same message with the optional field declared before the enum.\<close>

definition enumLastProto :: string where
  "enumLastProto = unlines
     [''message M {'',
      ''  optional int32 age = 2;'',
      ''  enum Color {'',
      ''    RED = 0;'',
      ''  }'',
      ''}'']"

text \<open>
  An inner message with an explicitly optional field, embedded twice in an outer message;
  both are declared at the top level:
  \<^verbatim>\<open>
  message Inner {
    optional string x = 1;
  }
  message Outer {
    Inner a = 1;
    Inner b = 2;
  }
  \<close>
  \<open>outerType\<close> has its fields as the parser leaves them, \<open>outerLinked\<close> has them
  linked to \<open>Inner\<close>.
\<close>

definition innerOuterProto :: string where
  "innerOuterProto = unlines
     [''message Inner {'',
      ''  optional string x = 1;'',
      ''}'',
      ''message Outer {'',
      ''  Inner a = 1;'',
      ''  Inner b = 2;'',
      ''}'']"

definition innerType :: ptype where
  "innerType = Type ''Inner'' [Field ''x'' ''string'' None None] []"

definition outerType :: ptype where
  "outerType = Type ''Outer''
     [Field ''a'' ''Inner'' None None, Field ''b'' ''Inner'' None None] []"

definition outerLinked :: ptype where
  "outerLinked = Type ''Outer''
     [Field ''a'' ''Inner'' None (Some ''Inner''), Field ''b'' ''Inner'' None (Some ''Inner'')] []"

definition innerOuterRoot :: root where
  "innerOuterRoot = \<lparr>
     rootNested =
       [googleNamespace, (''Inner'', TypeObject innerType), (''Outer'', TypeObject outerType)],
     lookupType = (\<lambda>p. if p = ''Inner'' then Some innerType
                        else if p = ''Outer'' then Some outerType else None),
     lookupTypeOrEnum = (\<lambda>p. if p = ''Inner'' then Some (TypeObject innerType)
                        else if p = ''Outer'' then Some (TypeObject outerType) else None),
     lookupEnum = (\<lambda>p. None),
     resolved = (\<lambda>r. if r = ''Inner'' then TypeObject innerType else OtherObject) \<rparr>"

text \<open>
  The inner message declared inside the outer one:
  \<^verbatim>\<open>
  message Outer {
    message Inner {
      optional string x = 1;
    }
    Inner a = 1;
    Inner b = 2;
  }
  \<close>
\<close>

definition nestedInnerProto :: string where
  "nestedInnerProto = unlines
     [''message Outer {'',
      ''  message Inner {'',
      ''    optional string x = 1;'',
      ''  }'',
      ''  Inner a = 1;'',
      ''  Inner b = 2;'',
      ''}'']"

definition nestedOuterType :: ptype where
  "nestedOuterType = Type ''Outer''
     [Field ''a'' ''Inner'' None None, Field ''b'' ''Inner'' None None]
     [(''Inner'', TypeObject innerType)]"

text \<open>
  The root for the nested declaration.
\<close>

definition nestedRoot :: root where
  "nestedRoot = \<lparr>
     rootNested = [googleNamespace, (''Outer'', TypeObject nestedOuterType)],
     lookupType = (\<lambda>p. if p = ''Outer'' then Some nestedOuterType
                        else if p = ''Inner'' \<or> p = ''Outer.Inner'' then Some innerType
                        else None),
     lookupTypeOrEnum = (\<lambda>p. if p = ''Outer'' then Some (TypeObject nestedOuterType)
                        else if p = ''Inner'' \<or> p = ''Outer.Inner''
                          then Some (TypeObject innerType)
                        else None),
     lookupEnum = (\<lambda>p. None),
     resolved = (\<lambda>r. OtherObject) \<rparr>"

text \<open>
  A repeated field of a nested message type that has an explicitly optional field, as the
  request type of a method:
  \<^verbatim>\<open>
  message Req {
    message Item {
      optional string x = 1;
    }
    repeated Item items = 1;
  }
  service Svc {
    rpc Do(Req) returns (Req);
  }
  \<close>
\<close>

definition repeatedProto :: string where
  "repeatedProto = unlines
     [''message Req {'',
      ''  message Item {'',
      ''    optional string x = 1;'',
      ''  }'',
      ''  repeated Item items = 1;'',
      ''}'',
      ''service Svc {'',
      ''  rpc Do(Req) returns (Req);'',
      ''}'']"

definition repeatedItem :: ptype where
  "repeatedItem = Type ''Item'' [Field ''x'' ''string'' None None] []"

definition repeatedType :: ptype where
  "repeatedType = Type ''Req'' [Field ''items'' ''Item'' (Some ''repeated'') None]
     [(''Item'', TypeObject repeatedItem)]"

definition repeatedRoot :: root where
  "repeatedRoot = \<lparr>
     rootNested =
       [googleNamespace,
        (''Req'', TypeObject repeatedType),
        (''Svc'', ServiceObject ''Svc'' [(''Do'', Method ''Req'' ''Req'')])],
     lookupType = (\<lambda>p. if p = ''Req'' then Some repeatedType
                        else if p = ''Item'' \<or> p = ''Req.Item'' then Some repeatedItem
                        else None),
     lookupTypeOrEnum = (\<lambda>p. if p = ''Req'' then Some (TypeObject repeatedType)
                        else if p = ''Item'' \<or> p = ''Req.Item''
                          then Some (TypeObject repeatedItem)
                        else None),
     lookupEnum = (\<lambda>p. None),
     resolved = (\<lambda>r. OtherObject) \<rparr>"

text \<open>
  Two services that both declare \<open>Get\<close>, a method whose request type does not exist,
  and request types with explicitly optional fields:
  \<^verbatim>\<open>
  message Item {
    int64 id = 1;
  }
  message Outer {
    message Inner {
      optional string x = 1;
    }
    Inner a = 1;
    Inner b = 2;
  }
  message Req {
    message Entry {
      optional string x = 1;
    }
    repeated Entry entries = 1;
    optional int32 n = 2;
  }
  service First {
    rpc Get(Item) returns (Item);
    rpc Lost(Nowhere) returns (Item);
  }
  service Second {
    rpc Get(Outer) returns (Item);
    rpc Put(Req) returns (Item);
  }
  \<close>
\<close>

definition servicesProto :: string where
  "servicesProto = unlines
     [''message Item {'',
      ''  int64 id = 1;'',
      ''}'',
      ''message Outer {'',
      ''  message Inner {'',
      ''    optional string x = 1;'',
      ''  }'',
      ''  Inner a = 1;'',
      ''  Inner b = 2;'',
      ''}'',
      ''message Req {'',
      ''  message Entry {'',
      ''    optional string x = 1;'',
      ''  }'',
      ''  repeated Entry entries = 1;'',
      ''  optional int32 n = 2;'',
      ''}'',
      ''service First {'',
      ''  rpc Get(Item) returns (Item);'',
      ''  rpc Lost(Nowhere) returns (Item);'',
      ''}'',
      ''service Second {'',
      ''  rpc Get(Outer) returns (Item);'',
      ''  rpc Put(Req) returns (Item);'',
      ''}'']"

definition entryType :: ptype where
  "entryType = Type ''Entry'' [Field ''x'' ''string'' None None] []"

definition mixedType :: ptype where
  "mixedType = Type ''Req''
     [Field ''entries'' ''Entry'' (Some ''repeated'') None, Field ''n'' ''int32'' None None]
     [(''Entry'', TypeObject entryType)]"

definition servicesRoot :: root where
  "servicesRoot = \<lparr>
     rootNested =
       [googleNamespace,
        (''Item'', TypeObject itemType),
        (''Outer'', TypeObject nestedOuterType),
        (''Req'', TypeObject mixedType),
        (''First'', ServiceObject ''First''
           [(''Get'', Method ''Item'' ''Item''), (''Lost'', Method ''Nowhere'' ''Item'')]),
        (''Second'', ServiceObject ''Second''
           [(''Get'', Method ''Outer'' ''Item''), (''Put'', Method ''Req'' ''Item'')])],
     lookupType = (\<lambda>p.
        if p = ''Item'' then Some itemType
        else if p = ''Outer'' then Some nestedOuterType
        else if p = ''Req'' then Some mixedType
        else if p = ''Inner'' \<or> p = ''Outer.Inner'' then Some innerType
        else if p = ''Entry'' \<or> p = ''Req.Entry'' then Some entryType
        else if p = ''google.protobuf.Timestamp'' \<or> p = ''.google.protobuf.Timestamp''
          then Some timestampType
        else None),
     lookupTypeOrEnum = (\<lambda>p.
        if p = ''Item'' then Some (TypeObject itemType)
        else if p = ''Outer'' then Some (TypeObject nestedOuterType)
        else if p = ''Req'' then Some (TypeObject mixedType)
        else if p = ''Inner'' \<or> p = ''Outer.Inner'' then Some (TypeObject innerType)
        else if p = ''Entry'' \<or> p = ''Req.Entry'' then Some (TypeObject entryType)
        else if p = ''google.protobuf.Timestamp'' \<or> p = ''.google.protobuf.Timestamp''
          then Some (TypeObject timestampType)
        else None),
     lookupEnum = (\<lambda>p. None),
     resolved = (\<lambda>r. OtherObject) \<rparr>"

text \<open>The levels of the message types of that schema.\<close>

definition servicesLevels :: "(ptype \<times> nat) list" where
  "servicesLevels =
     [(itemType, 0), (innerType, 0), (entryType, 0), (timestampType, 0),
      (nestedOuterType, 1), (mixedType, 1)]"

section \<open>Facts about objects and the template loop\<close>

lemmas scan_simps = parseExplicitOptionalFields_def scanLine_def trim_def startsWith_def
  messageMatch_def optionalAt_def countChar_def setAdd_def isSpace_def isWord_def isTypeChar_def
  unlines_def Let_def

lemma map_of_assign: "map_of (assign kvs k v) = (map_of kvs)(k \<mapsto> v)"
  by (induction kvs) auto

lemma keys_assign: "fst ` set (assign kvs k v) = insert k (fst ` set kvs)"
  by (simp add: dom_map_of_conv_image_fst[symmetric] map_of_assign)

lemma distinct_assign: "distinct (map fst kvs) \<Longrightarrow> distinct (map fst (assign kvs k v))"
  by (induction kvs) (auto simp: keys_assign)

lemma getEmptyValueForType_scalar:
  "scalarName ft \<Longrightarrow> getEmptyValueForType n ft S t =
     (case primitiveCase ft of Some v \<Rightarrow> Some v | None \<Rightarrow> Some (JString ''''))"
  by (auto simp: scalarName_def split: option.splits)

lemma getEmptyValueForType_resolved:
  "\<not> scalarName ft \<Longrightarrow> getEmptyValueForType n ft S t =
     (case resolveType S t ft of
        Some (TypeObject nestedType) \<Rightarrow> generateEmptyJsonTemplate n S nestedType
      | Some (EnumObject e) \<Rightarrow> Some (firstKey (enumValues e))
      | _ \<Rightarrow> Some (JString ''''))"
  by (auto simp: scalarName_def resolveType_def split: option.splits reflection.splits)

declare getEmptyValueForType.simps [simp del] lookupGlobal.simps [simp del]

lemmas generation_simps =
  getEmptyValueForType.simps lookupGlobal.simps primitiveCase_def timestampName_def firstKey_def

lemma templateFields_other:
  "templateFields n S t fs tpl = Some tpl' \<Longrightarrow> k \<notin> name ` set fs \<Longrightarrow>
   map_of tpl' k = map_of tpl k"
proof (induction fs arbitrary: tpl)
  case Nil
  then show ?case by simp
next
  case (Cons f fs)
  from Cons.prems obtain v where
    rest: "templateFields n S t fs
             (assign tpl (name f) (if rule f = Some ''repeated'' then JArray [] else v)) = Some tpl'"
    by (auto split: option.splits)
  from Cons.prems have "k \<noteq> name f" "k \<notin> name ` set fs" by auto
  with Cons.IH[OF rest] show ?case by (simp add: map_of_assign)
qed

lemma templateFields_value:
  "templateFields n S t fs tpl = Some tpl' \<Longrightarrow> f \<in> set fs \<Longrightarrow> distinct (map name fs) \<Longrightarrow>
   \<exists>v. getEmptyValueForType n (type f) S t = Some v \<and>
       map_of tpl' (name f) = Some (if rule f = Some ''repeated'' then JArray [] else v)"
proof (induction fs arbitrary: tpl)
  case Nil
  then show ?case by simp
next
  case (Cons g fs)
  from Cons.prems(1) obtain v where
    v: "getEmptyValueForType n (type g) S t = Some v" and
    rest: "templateFields n S t fs
             (assign tpl (name g) (if rule g = Some ''repeated'' then JArray [] else v)) = Some tpl'"
    by (auto split: option.splits)
  show ?case
  proof (cases "f = g")
    case True
    from Cons.prems(3) have "name g \<notin> name ` set fs" by simp
    from templateFields_other[OF rest this] v True show ?thesis
      by (simp add: map_of_assign)
  next
    case False
    with Cons.prems have "f \<in> set fs" "distinct (map name fs)" by auto
    from Cons.IH[OF rest this] show ?thesis .
  qed
qed

lemma member_field:
  assumes "generateEmptyJsonTemplate n S t = Some tpl"
    and "f \<in> set (fieldsArray t)" and "distinct (map name (fieldsArray t))"
  shows "\<exists>m v. n = Suc m \<and> getEmptyValueForType m (type f) S t = Some v \<and>
       member tpl (name f) = Some (if rule f = Some ''repeated'' then JArray [] else v)"
proof (cases n)
  case 0
  with assms show ?thesis by simp
next
  case (Suc m)
  with assms(1) obtain kvs where
    kvs: "templateFields m S t (fieldsArray t) [] = Some kvs" and tpl: "tpl = JObject kvs"
    by auto
  from templateFields_value[OF kvs assms(2,3)] Suc tpl show ?thesis
    by (auto simp: member_def)
qed

lemma templateFields_total:
  "(\<And>f. f \<in> set fs \<Longrightarrow> getEmptyValueForType n (type f) S t \<noteq> None) \<Longrightarrow>
   \<exists>tpl'. templateFields n S t fs tpl = Some tpl'"
  by (induction fs arbitrary: tpl) (auto split: option.splits)

lemma getEmptyValueForType_flat:
  "scalarName ft \<or> resolveType S t ft = None \<Longrightarrow> getEmptyValueForType n ft S t \<noteq> None"
  by (cases "scalarName ft")
    (auto simp: getEmptyValueForType_scalar getEmptyValueForType_resolved split: option.splits)

lemma sampleTemplate:
  "generateEmptyJsonTemplate (Suc (Suc 0)) sampleRoot sampleType = Some (JObject
     [(''s'', JString ''''), (''raw'', JString ''''), (''ok'', JBool False),
      (''count'', JNumber 0), (''ratio'', JNumber 0), (''ghost'', JString ''''),
      (''e'', JString ''B''),
      (''created_at'', JString ''''),
      (''updated_at'', JObject [(''seconds'', JNumber 0)]),
      (''names'', JArray []), (''items'', JArray []), (''colors'', JArray []),
      (''ghosts'', JArray [])])"
  by (simp add: sampleType_def sampleRoot_def generation_simps
      timestampType_def itemType_def orderEnum_def)

lemma sampleType_distinct: "distinct (map name (fieldsArray sampleType))"
  by (simp add: sampleType_def)

section \<open>Termination\<close>

lemma getEmptyValueForType_messageOf:
  "getEmptyValueForType n ft S t \<noteq> None \<or>
   (\<exists>nt. messageOf S t ft = Some nt \<and> generateEmptyJsonTemplate n S nt = None)"
proof (cases "scalarName ft")
  case True
  then show ?thesis using getEmptyValueForType_flat by blast
next
  case False
  then show ?thesis
    by (auto simp: getEmptyValueForType_resolved messageOf_def
        split: option.splits reflection.splits)
qed

lemma generate_total_ranked:
  "descending S rk \<Longrightarrow> rk t < n \<Longrightarrow> \<exists>tpl. generateEmptyJsonTemplate n S t = Some tpl"
proof (induction n arbitrary: t)
  case 0
  then show ?case by simp
next
  case (Suc n)
  have "getEmptyValueForType n (type f) S t \<noteq> None" if f: "f \<in> set (fieldsArray t)" for f
  proof (rule ccontr)
    assume "\<not> getEmptyValueForType n (type f) S t \<noteq> None"
    with getEmptyValueForType_messageOf[of n "type f" S t] obtain nt where
      nt: "messageOf S t (type f) = Some nt" and no: "generateEmptyJsonTemplate n S nt = None"
      by auto
    from Suc.prems(1) f nt have "rk nt < rk t" unfolding descending_def by blast
    with Suc.prems(2) have "rk nt < n" by simp
    from Suc.IH[OF Suc.prems(1) this] no show False by simp
  qed
  from templateFields_total[OF this] show ?case by simp
qed

lemma extractFields_total:
  assumes "\<And>f nt fp tp acc. f \<in> set fs \<Longrightarrow> descendInto S t f = Some nt \<Longrightarrow>
             \<exists>r. extractOptionalFieldsRecursive n S E nt fp tp acc = Some r"
  shows "\<exists>r. extractFields n S E t fp tp fs acc = Some r"
  using assms
proof (induction fs arbitrary: acc)
  case Nil
  then show ?case by simp
next
  case (Cons f fs)
  have ih: "\<exists>r. extractFields n S E t fp tp fs a = Some r" for a
    by (rule Cons.IH) (rule Cons.prems, simp_all)
  let ?acc = "if dotted tp (typeName t @ ''.'' @ name f) \<in> set E
              then acc @ [dotted fp (name f)] else acc"
  show ?case
  proof (cases "descendInto S t f")
    case None
    with ih[of ?acc] show ?thesis by (simp add: Let_def)
  next
    case (Some nt)
    from Cons.prems[of f nt "dotted fp (name f)" "dotted tp (typeName t)" ?acc] Some
    obtain r where r: "extractOptionalFieldsRecursive n S E nt (dotted fp (name f))
                         (dotted tp (typeName t)) ?acc = Some r"
      by auto
    with Some ih[of r] show ?thesis by (simp add: Let_def)
  qed
qed

lemma extract_total_ranked:
  "descending S rk \<Longrightarrow> rk t < n \<Longrightarrow>
   \<exists>r. extractOptionalFieldsRecursive n S E t fp tp acc = Some r"
proof (induction n arbitrary: t fp tp acc)
  case 0
  then show ?case by simp
next
  case (Suc n)
  have "\<exists>r. extractOptionalFieldsRecursive n S E nt fp' tp' acc' = Some r"
    if "f \<in> set (fieldsArray t)" "descendInto S t f = Some nt" for f nt fp' tp' acc'
  proof -
    from Suc.prems(1) that have "rk nt < rk t" unfolding descending_def by blast
    with Suc.prems(2) have "rk nt < n" by simp
    from Suc.IH[OF Suc.prems(1) this] show ?thesis .
  qed
  from extractFields_total[of "fieldsArray t" S t n E, OF this] show ?case by simp
qed


lemma nested_type_smaller:
  "map_of (nested t) k = Some (TypeObject nt) \<Longrightarrow> size nt < size t"
proof -
  assume a: "map_of (nested t) k = Some (TypeObject nt)"
  obtain tn fs ns where t: "t = Type tn fs ns" by (cases t)
  from a t have "(k, TypeObject nt) \<in> set ns" by (auto dest: map_of_SomeD)
  then have "size_prod (\<lambda>x. 0) size (k, TypeObject nt) \<le> size_list (size_prod (\<lambda>x. 0) size) ns"
    by (rule size_list_estimation') simp
  with t show ?thesis by simp
qed

lemma sampleRank_values:
  "sampleRank itemType = 0" "sampleRank timestampType = 0" "sampleRank sampleType = 1"
  by (simp_all add: sampleRank_def sampleType_def itemType_def timestampType_def)

lemma sampleRank_le: "sampleRank t \<le> 2 + size t"
  by (simp add: sampleRank_def)

lemma messageOf_cases:
  "messageOf S t ft = Some nt \<Longrightarrow>
   map_of (nested t) ft = Some (TypeObject nt) \<or> lookupType S ft = Some nt \<or>
   lookupTypeOrEnum S ft = Some (TypeObject nt)"
  by (auto simp: messageOf_def resolveType_def split: if_splits option.splits reflection.splits)

lemma descendInto_cases:
  "descendInto S t f = Some nt \<Longrightarrow>
   resolvedMessage S f = Some nt \<or> map_of (nested t) (type f) = Some (TypeObject nt)"
  by (auto simp: descendInto_def split: option.splits reflection.splits)

lemma sampleRoot_lookups:
  "lookupType sampleRoot p = Some nt \<Longrightarrow> nt \<in> {sampleType, itemType, timestampType}"
  "lookupTypeOrEnum sampleRoot p = Some (TypeObject nt) \<Longrightarrow> nt \<in> {sampleType, itemType, timestampType}"
  "resolvedMessage sampleRoot f = None"
  by (simp_all add: sampleRoot_def resolvedMessage_def split: if_splits option.splits)

lemma sampleRoot_Sample_only:
  "lookupType sampleRoot p = Some sampleType \<Longrightarrow> p = ''Sample''"
  "lookupTypeOrEnum sampleRoot p = Some (TypeObject sampleType) \<Longrightarrow> p = ''Sample''"
  by (simp_all add: sampleRoot_def sampleType_def itemType_def timestampType_def
      split: if_splits)

lemma sampleType_no_self: "f \<in> set (fieldsArray sampleType) \<Longrightarrow> type f \<noteq> ''Sample''"
  by (auto simp: sampleType_def)

lemma leaf_edges:
  "f \<in> set (fieldsArray itemType) \<Longrightarrow> messageOf sampleRoot itemType (type f) = None"
  "f \<in> set (fieldsArray timestampType) \<Longrightarrow> messageOf sampleRoot timestampType (type f) = None"
  by (auto simp: itemType_def timestampType_def messageOf_def scalarName_def primitiveCase_def)

lemma sampleRoot_descending: "descending sampleRoot sampleRank"
  unfolding descending_def
proof (intro allI impI)
  fix t f nt
  assume a: "f \<in> set (fieldsArray t) \<and>
     (messageOf sampleRoot t (type f) = Some nt \<or> descendInto sampleRoot t f = Some nt)"
  then have f: "f \<in> set (fieldsArray t)" by simp
  from a messageOf_cases[of sampleRoot t "type f" nt] descendInto_cases[of sampleRoot t f nt]
    sampleRoot_lookups(1)[of "type f" nt] sampleRoot_lookups(2)[of "type f" nt]
    sampleRoot_lookups(3)[of f]
  consider (nested) "map_of (nested t) (type f) = Some (TypeObject nt)"
    | (global) "messageOf sampleRoot t (type f) = Some nt"
        "nt \<in> {sampleType, itemType, timestampType}"
        "lookupType sampleRoot (type f) = Some nt \<or>
         lookupTypeOrEnum sampleRoot (type f) = Some (TypeObject nt)"
    by auto
  then show "sampleRank nt < sampleRank t"
  proof cases
    case nested
    then have sz: "size nt < size t" by (rule nested_type_smaller)
    from nested have "nested t \<noteq> []" by auto
    then have "t \<noteq> itemType" "t \<noteq> timestampType" "t \<noteq> sampleType"
      by (auto simp: itemType_def timestampType_def sampleType_def)
    then have "sampleRank t = 2 + size t" by (simp add: sampleRank_def)
    with sz sampleRank_le[of nt] show ?thesis by simp
  next
    case global
    show ?thesis
    proof (cases "t = sampleType \<or> t = itemType \<or> t = timestampType")
      case True
      from f global(1) leaf_edges[of f] have "t \<noteq> itemType" "t \<noteq> timestampType" by auto
      with True have t: "t = sampleType" by simp
      from global(3) sampleRoot_Sample_only[of "type f"] sampleType_no_self[of f] f t
      have "nt \<noteq> sampleType" by auto
      with global(2) t show ?thesis by (auto simp: sampleRank_values)
    next
      case False
      then have "sampleRank t = 2 + size t" by (simp add: sampleRank_def)
      with global(2) show ?thesis by (auto simp: sampleRank_values)
    qed
  qed
qed





lemma extractFields_mono:
  assumes "\<And>nt fp tp acc r. extractOptionalFieldsRecursive n S E nt fp tp acc = Some r \<Longrightarrow>
             extractOptionalFieldsRecursive m S E nt fp tp acc = Some r"
  shows "extractFields n S E t fp tp fs acc = Some r \<Longrightarrow>
         extractFields m S E t fp tp fs acc = Some r"
proof (induction fs arbitrary: acc)
  case Nil
  then show ?case by simp
next
  case (Cons f fs)
  show ?case
  proof (cases "descendInto S t f")
    case None
    with Cons show ?thesis by (simp add: Let_def)
  next
    case (Some nt)
    with Cons.prems obtain d where
      d: "extractOptionalFieldsRecursive n S E nt (dotted fp (name f)) (dotted tp (typeName t))
            (if dotted tp (typeName t @ ''.'' @ name f) \<in> set E
             then acc @ [dotted fp (name f)] else acc) = Some d"
      and rest: "extractFields n S E t fp tp fs d = Some r"
      by (auto simp: Let_def split: option.splits if_splits)
    from assms[OF d] Cons.IH[OF rest] Some show ?thesis by (simp add: Let_def)
  qed
qed

lemma extract_mono_Suc:
  "extractOptionalFieldsRecursive n S E t fp tp acc = Some r \<Longrightarrow>
   extractOptionalFieldsRecursive (Suc n) S E t fp tp acc = Some r"
proof (induction n arbitrary: t fp tp acc r)
  case 0
  then show ?case by simp
next
  case (Suc n)
  from Suc.prems have "extractFields n S E t fp tp (fieldsArray t) acc = Some r" by simp
  from extractFields_mono[of n S E "Suc n", OF Suc.IH this] show ?case by simp
qed

lemma extract_mono:
  "n \<le> m \<Longrightarrow> extractOptionalFieldsRecursive n S E t fp tp acc = Some r \<Longrightarrow>
   extractOptionalFieldsRecursive m S E t fp tp acc = Some r"
  by (induction m rule: dec_induct) (simp_all only: extract_mono_Suc)

section \<open>Template values of single fields\<close>

text \<open>
  C4. A repeated field has the empty array as its template value, whatever its element
  type is: in every template that \<open>generateEmptyJsonTemplate\<close> returns for a message
  type (with the field names of a message distinct, as the keys of \<open>fields\<close> are), the
  entry of a field whose rule is \<open>repeated\<close> is \<open>[]\<close>; and on a schema with acyclic
  message references such a template is returned. Nothing is assumed about the declared
  type of the field.
\<close>

theorem repeated_field_is_empty_array:
  assumes "distinct (map name (fieldsArray t))"
    and "f \<in> set (fieldsArray t)"
    and "rule f = Some ''repeated''"
  shows "(\<forall>n tpl. generateEmptyJsonTemplate n S t = Some tpl \<longrightarrow>
            member tpl (name f) = Some (JArray []))
       \<and> (descending S rk \<longrightarrow>
            (\<exists>tpl. generateEmptyJsonTemplate (Suc (rk t)) S t = Some tpl \<and>
                   member tpl (name f) = Some (JArray [])))"
proof -
  have v: "member tpl (name f) = Some (JArray [])"
    if "generateEmptyJsonTemplate n S t = Some tpl" for n tpl
    using member_field[OF that assms(2,1)] assms(3) by auto
  moreover have "\<exists>tpl. generateEmptyJsonTemplate (Suc (rk t)) S t = Some tpl \<and>
                   member tpl (name f) = Some (JArray [])" if "descending S rk"
    using generate_total_ranked[OF that, of t "Suc (rk t)"] v by blast
  ultimately show ?thesis by blast
qed

text \<open>
  In the sample message the repeated fields of primitive, message, enum and unresolvable
  element type all get \<open>[]\<close>.
\<close>

theorem repeated_field_is_empty_array_witness:
  "\<exists>tpl. generateEmptyJsonTemplate (Suc (Suc 0)) sampleRoot sampleType = Some tpl \<and>
     map (member tpl) [''names'', ''items'', ''colors'', ''ghosts'']
       = [Some (JArray []), Some (JArray []), Some (JArray []), Some (JArray [])]"
proof -
  have d: "distinct (map name (fieldsArray sampleType))" by (rule sampleType_distinct)
  have m: "Field ''names'' ''string'' (Some ''repeated'') None \<in> set (fieldsArray sampleType)"
    "Field ''items'' ''Item'' (Some ''repeated'') None \<in> set (fieldsArray sampleType)"
    "Field ''colors'' ''E'' (Some ''repeated'') None \<in> set (fieldsArray sampleType)"
    "Field ''ghosts'' ''Missing'' (Some ''repeated'') None \<in> set (fieldsArray sampleType)"
    by (simp_all add: sampleType_def)
  from repeated_field_is_empty_array[OF d m(1), of sampleRoot sampleRank]
    repeated_field_is_empty_array[OF d m(2), of sampleRoot sampleRank]
    repeated_field_is_empty_array[OF d m(3), of sampleRoot sampleRank]
    repeated_field_is_empty_array[OF d m(4), of sampleRoot sampleRank]
    sampleRoot_descending
  show ?thesis by (auto simp: sampleRank_values simp del: generateEmptyJsonTemplate.simps)
qed

text \<open>
  C5. A singular field whose declared type resolves to an enum gets the name of the
  first declared value of that enum: the head of the value list, whatever the numbers
  and the alphabetical order of the names are. This holds in every template returned,
  and one is returned on a schema with acyclic message references.
\<close>

theorem enum_field_first_declared_value:
  assumes "distinct (map name (fieldsArray t))"
    and "f \<in> set (fieldsArray t)"
    and "rule f \<noteq> Some ''repeated''"
    and "\<not> scalarName (type f)"
    and "resolveType S t (type f) = Some (EnumObject e)"
    and "enumValues e = (k, i) # rest"
  shows "(\<forall>n tpl. generateEmptyJsonTemplate n S t = Some tpl \<longrightarrow>
            member tpl (name f) = Some (JString k))
       \<and> (descending S rk \<longrightarrow>
            (\<exists>tpl. generateEmptyJsonTemplate (Suc (rk t)) S t = Some tpl \<and>
                   member tpl (name f) = Some (JString k)))"
proof -
  have v: "member tpl (name f) = Some (JString k)"
    if "generateEmptyJsonTemplate n S t = Some tpl" for n tpl
    using member_field[OF that assms(2,1)] assms(3-)
    by (auto simp: getEmptyValueForType_resolved firstKey_def)
  moreover have "\<exists>tpl. generateEmptyJsonTemplate (Suc (rk t)) S t = Some tpl \<and>
                   member tpl (name f) = Some (JString k)" if "descending S rk"
    using generate_total_ranked[OF that, of t "Suc (rk t)"] v by blast
  ultimately show ?thesis by blast
qed

text \<open>For \<open>enum E { B = 0; A = 1; }\<close> the value is \<open>"B"\<close>.\<close>

theorem enum_field_first_declared_value_witness:
  "\<exists>tpl. generateEmptyJsonTemplate (Suc (Suc 0)) sampleRoot sampleType = Some tpl \<and>
     member tpl ''e'' = Some (JString ''B'')"
proof -
  let ?f = "Field ''e'' ''E'' None None"
  have m: "?f \<in> set (fieldsArray sampleType)"
    by (simp add: sampleType_def)
  have r: "rule ?f \<noteq> Some ''repeated''" by simp
  have s: "\<not> scalarName (type ?f)"
    by (simp add: scalarName_def primitiveCase_def timestampName_def)
  have e: "resolveType sampleRoot sampleType (type ?f) = Some (EnumObject orderEnum)"
    by (simp add: resolveType_def sampleType_def sampleRoot_def)
  have v: "enumValues orderEnum = (''B'', 0) # [(''A'', 1)]"
    by (simp add: orderEnum_def)
  from enum_field_first_declared_value[OF sampleType_distinct m r s e v, of sampleRank]
    sampleRoot_descending
  show ?thesis by (auto simp: sampleRank_values simp del: generateEmptyJsonTemplate.simps)
qed

text \<open>
  C6. A singular field of primitive type gets the default of the table: the empty string
  for \<open>string\<close> and \<open>bytes\<close>, \<open>false\<close> for \<open>bool\<close>, \<open>0\<close> for the ten integer
  types and for \<open>float\<close> and \<open>double\<close>; a field whose type name resolves to nothing
  gets the empty string. This holds in every template returned. No field of these kinds
  stops the generation: a message type all of whose fields are primitive, timestamps or
  unresolvable has a template at every positive depth bound, and so has every message
  type of a schema with acyclic message references at a bound above its rank.
\<close>

theorem primitive_field_defaults:
  "(generateEmptyJsonTemplate n S t = Some tpl \<and> distinct (map name (fieldsArray t)) \<and>
    f \<in> set (fieldsArray t) \<and> rule f \<noteq> Some ''repeated'' \<longrightarrow>
      (type f = ''string'' \<or> type f = ''bytes'' \<longrightarrow> member tpl (name f) = Some (JString '''')) \<and>
      (type f = ''bool'' \<longrightarrow> member tpl (name f) = Some (JBool False)) \<and>
      (type f \<in> {''int32'', ''int64'', ''uint32'', ''uint64'', ''sint32'', ''sint64'',
                 ''fixed32'', ''fixed64'', ''sfixed32'', ''sfixed64''} \<longrightarrow>
         member tpl (name f) = Some (JNumber 0)) \<and>
      (type f = ''float'' \<or> type f = ''double'' \<longrightarrow> member tpl (name f) = Some (JNumber 0)) \<and>
      (\<not> scalarName (type f) \<and> resolveType S t (type f) = None \<longrightarrow>
         member tpl (name f) = Some (JString '''')))
   \<and> (list_all (\<lambda>g. scalarName (type g) \<or> resolveType S t (type g) = None) (fieldsArray t) \<longrightarrow>
        (\<exists>tpl'. generateEmptyJsonTemplate (Suc m) S t = Some tpl'))
   \<and> (descending S rk \<longrightarrow> (\<exists>tpl'. generateEmptyJsonTemplate (Suc (rk t)) S t = Some tpl'))"
proof (intro conjI impI)
  assume "descending S rk"
  from generate_total_ranked[OF this, of t "Suc (rk t)"]
  show "\<exists>tpl'. generateEmptyJsonTemplate (Suc (rk t)) S t = Some tpl'" by simp
next
  assume "list_all (\<lambda>g. scalarName (type g) \<or> resolveType S t (type g) = None) (fieldsArray t)"
  then have "\<And>g. g \<in> set (fieldsArray t) \<Longrightarrow> getEmptyValueForType m (type g) S t \<noteq> None"
    by (simp add: list_all_iff getEmptyValueForType_flat)
  from templateFields_total[OF this]
  show "\<exists>tpl'. generateEmptyJsonTemplate (Suc m) S t = Some tpl'" by simp
next
  assume a: "generateEmptyJsonTemplate n S t = Some tpl \<and> distinct (map name (fieldsArray t)) \<and>
    f \<in> set (fieldsArray t) \<and> rule f \<noteq> Some ''repeated''"
  with member_field[of n S t tpl f] obtain k v where
    v: "getEmptyValueForType k (type f) S t = Some v" and tpl: "member tpl (name f) = Some v"
    by auto
  {
    assume "type f = ''string'' \<or> type f = ''bytes''"
    with v tpl show "member tpl (name f) = Some (JString '''')"
      by (auto simp: generation_simps)
  next
    assume "type f = ''bool''"
    with v tpl show "member tpl (name f) = Some (JBool False)"
      by (auto simp: generation_simps)
  next
    assume "type f \<in> {''int32'', ''int64'', ''uint32'', ''uint64'', ''sint32'', ''sint64'',
                 ''fixed32'', ''fixed64'', ''sfixed32'', ''sfixed64''}"
    then have "primitiveCase (type f) = Some (JNumber 0)"
      by (auto simp: primitiveCase_def)
    with v tpl show "member tpl (name f) = Some (JNumber 0)"
      by (simp add: getEmptyValueForType.simps)
  next
    assume "type f = ''float'' \<or> type f = ''double''"
    with v tpl show "member tpl (name f) = Some (JNumber 0)"
      by (auto simp: generation_simps)
  next
    assume "\<not> scalarName (type f) \<and> resolveType S t (type f) = None"
    with v tpl show "member tpl (name f) = Some (JString '''')"
      by (simp add: getEmptyValueForType_resolved)
  }
qed

theorem primitive_field_defaults_witness:
  "generateEmptyJsonTemplate (Suc (Suc 0)) sampleRoot sampleType \<noteq> None \<and>
   member (the (generateEmptyJsonTemplate (Suc (Suc 0)) sampleRoot sampleType)) ''count''
     = Some (JNumber 0) \<and>
   member (the (generateEmptyJsonTemplate (Suc (Suc 0)) sampleRoot sampleType)) ''ghost''
     = Some (JString '''') \<and>
   (\<exists>tpl. generateEmptyJsonTemplate (Suc 0) sampleRoot itemType = Some tpl)"
proof -
  let ?f = "Field ''count'' ''uint64'' None None"
  let ?g = "Field ''ghost'' ''Missing'' None None"
  have mf: "?f \<in> set (fieldsArray sampleType)" and mg: "?g \<in> set (fieldsArray sampleType)"
    by (simp_all add: sampleType_def)
  have ug: "\<not> scalarName (type ?g) \<and> resolveType sampleRoot sampleType (type ?g) = None"
    by (simp add: scalarName_def primitiveCase_def timestampName_def resolveType_def
        sampleType_def sampleRoot_def)
  have fl: "list_all (\<lambda>g. scalarName (type g) \<or> resolveType sampleRoot itemType (type g) = None)
              (fieldsArray itemType)"
    by (simp add: itemType_def scalarName_def primitiveCase_def)
  from primitive_field_defaults[of "Suc (Suc 0)" sampleRoot sampleType
      "the (generateEmptyJsonTemplate (Suc (Suc 0)) sampleRoot sampleType)" ?f 0 sampleRank]
    primitive_field_defaults[of "Suc (Suc 0)" sampleRoot sampleType
      "the (generateEmptyJsonTemplate (Suc (Suc 0)) sampleRoot sampleType)" ?g 0 sampleRank]
    primitive_field_defaults[of 0 sampleRoot itemType undefined undefined 0 sampleRank]
    sampleRoot_descending sampleType_distinct mf mg ug fl
  show ?thesis by (auto simp: sampleRank_values simp del: generateEmptyJsonTemplate.simps)
qed

text \<open>
  C9 (as stated, refuted). The claim says that a field declared exactly
  \<open>google.protobuf.Timestamp\<close> always receives the empty string, and that a field whose
  type resolves to the built-in message receives \<open>{seconds: 0, nanos: 0}\<close>. In the
  message \<open>Stamps\<close> the field \<open>history\<close> has the exact spelling and is repeated: it
  receives the empty array. The field \<open>updated_at\<close> resolves to the built-in message:
  it receives \<open>{seconds: 0}\<close>, the template of the message that \<open>parseProtoContent\<close>
  has built.
\<close>

theorem timestamp_field_values:
  "generateEmptyJsonTemplate (Suc (Suc 0)) sampleRoot stampsType =
     Some (JObject [(''history'', JArray []),
                    (''updated_at'', JObject [(''seconds'', JNumber 0)])])"
  by (simp add: stampsType_def sampleRoot_def timestampType_def generation_simps
      primitiveCase_def timestampName_def assign.simps)

text \<open>
  C9 (amended). The timestamp depends on the spelling of the declared type. The value
  computed for the exact spelling \<open>google.protobuf.Timestamp\<close> is the empty string for
  every root and enclosing message, so no lookup decides it; a field declared so receives
  the empty string when it is singular and the empty array when it is repeated. A
  singular field whose declared type resolves, in the order of the code, to a message
  (which the exact spelling never does, see \<open>messageOf\<close>), the built-in timestamp
  message among them, receives the nested template generated for that message, an object.
  All of this holds in every template returned, and one is returned on a schema with
  acyclic message references.
\<close>

theorem timestamp_depends_on_spelling:
  assumes "distinct (map name (fieldsArray t))"
    and "f \<in> set (fieldsArray t)"
  shows "(\<forall>k S' t'. getEmptyValueForType k ''google.protobuf.Timestamp'' S' t' =
                      Some (JString ''''))
       \<and> (\<forall>n tpl. generateEmptyJsonTemplate n S t = Some tpl \<longrightarrow>
            (type f = ''google.protobuf.Timestamp'' \<longrightarrow>
               member tpl (name f) =
                 Some (if rule f = Some ''repeated'' then JArray [] else JString '''')) \<and>
            (\<forall>mt. rule f \<noteq> Some ''repeated'' \<and> messageOf S t (type f) = Some mt \<longrightarrow>
               (\<exists>m kvs. n = Suc m \<and>
                  generateEmptyJsonTemplate m S mt = Some (JObject kvs) \<and>
                  member tpl (name f) = Some (JObject kvs))))
       \<and> (descending S rk \<longrightarrow> (\<exists>tpl. generateEmptyJsonTemplate (Suc (rk t)) S t = Some tpl))"
proof (intro conjI allI impI)
  fix k S' t'
  show "getEmptyValueForType k ''google.protobuf.Timestamp'' S' t' = Some (JString '''')"
    by (simp add: generation_simps)
next
  assume "descending S rk"
  from generate_total_ranked[OF this, of t "Suc (rk t)"]
  show "\<exists>tpl. generateEmptyJsonTemplate (Suc (rk t)) S t = Some tpl" by simp
next
  fix n tpl
  assume g: "generateEmptyJsonTemplate n S t = Some tpl"
  from member_field[OF g assms(2,1)] obtain m v where
    n: "n = Suc m" and
    v: "getEmptyValueForType m (type f) S t = Some v" and
    tpl: "member tpl (name f) = Some (if rule f = Some ''repeated'' then JArray [] else v)"
    by auto
  {
    assume "type f = ''google.protobuf.Timestamp''"
    with v tpl show "member tpl (name f) =
        Some (if rule f = Some ''repeated'' then JArray [] else JString '''')"
      by (simp add: generation_simps)
  next
    fix mt
    assume a: "rule f \<noteq> Some ''repeated'' \<and> messageOf S t (type f) = Some mt"
    then have ns: "\<not> scalarName (type f)"
      and rt: "resolveType S t (type f) = Some (TypeObject mt)"
      by (auto simp: messageOf_def split: if_splits option.splits reflection.splits)
    from v ns rt have gt: "generateEmptyJsonTemplate m S mt = Some v"
      by (simp add: getEmptyValueForType_resolved)
    then obtain kvs where "v = JObject kvs" by (cases m) auto
    with gt tpl a n show "\<exists>m kvs. n = Suc m \<and>
        generateEmptyJsonTemplate m S mt = Some (JObject kvs) \<and>
        member tpl (name f) = Some (JObject kvs)"
      by simp
  }
qed

text \<open>
  In the sample message \<open>created_at\<close> is declared \<open>google.protobuf.Timestamp\<close> and
  \<open>updated_at\<close> is declared \<open>.google.protobuf.Timestamp\<close>, the same type with a
  leading dot, which the root resolves to the built-in message.
\<close>

theorem timestamp_depends_on_spelling_witness:
  "\<exists>tpl. generateEmptyJsonTemplate (Suc (Suc 0)) sampleRoot sampleType = Some tpl \<and>
     member tpl ''created_at'' = Some (JString '''') \<and>
     member tpl ''updated_at'' = generateEmptyJsonTemplate (Suc 0) sampleRoot timestampType \<and>
     member tpl ''updated_at'' = Some (JObject [(''seconds'', JNumber 0)])"
proof -
  let ?f = "Field ''created_at'' ''google.protobuf.Timestamp'' None None"
  let ?g = "Field ''updated_at'' ''.google.protobuf.Timestamp'' None None"
  have mf: "?f \<in> set (fieldsArray sampleType)" and mg: "?g \<in> set (fieldsArray sampleType)"
    by (simp_all add: sampleType_def)
  have tg: "messageOf sampleRoot sampleType (type ?g) = Some timestampType"
    by (simp add: messageOf_def scalarName_def primitiveCase_def timestampName_def
        resolveType_def sampleType_def sampleRoot_def)
  have ts: "generateEmptyJsonTemplate (Suc 0) sampleRoot timestampType =
              Some (JObject [(''seconds'', JNumber 0)])"
    by (simp add: timestampType_def generation_simps primitiveCase_def)
  note created =
    timestamp_depends_on_spelling[OF sampleType_distinct mf, of sampleRoot sampleRank]
  note updated =
    timestamp_depends_on_spelling[OF sampleType_distinct mg, of sampleRoot sampleRank]
  from created sampleRoot_descending obtain tpl where
    tpl: "generateEmptyJsonTemplate (Suc (Suc 0)) sampleRoot sampleType = Some tpl"
    by (auto simp: sampleRank_values simp del: generateEmptyJsonTemplate.simps)
  from created tpl have c: "member tpl ''created_at'' = Some (JString '''')"
    by (auto simp del: generateEmptyJsonTemplate.simps)
  from updated have "\<forall>mt. rule ?g \<noteq> Some ''repeated'' \<and>
        messageOf sampleRoot sampleType (type ?g) = Some mt \<longrightarrow>
        (\<exists>m kvs. Suc (Suc 0) = Suc m \<and>
           generateEmptyJsonTemplate m sampleRoot mt = Some (JObject kvs) \<and>
           member tpl (name ?g) = Some (JObject kvs))"
    using tpl by blast
  with tg have "\<exists>kvs.
      generateEmptyJsonTemplate (Suc 0) sampleRoot timestampType = Some (JObject kvs) \<and>
      member tpl ''updated_at'' = Some (JObject kvs)"
    by (simp del: generateEmptyJsonTemplate.simps)
  with ts have u: "member tpl ''updated_at'' = Some (JObject [(''seconds'', JNumber 0)])"
    by (simp del: generateEmptyJsonTemplate.simps)
  from tpl c u ts show ?thesis by (simp del: generateEmptyJsonTemplate.simps)
qed


section \<open>The recursion on a bounded call stack\<close>













section \<open>Recursion depth\<close>





section \<open>The walk over services\<close>

lemma storeAll_append:
  "storeAll g (xs @ ys) acc =
     (case storeAll g xs acc of None \<Rightarrow> None | Some acc' \<Rightarrow> storeAll g ys acc')"
  by (induction xs arbitrary: acc) (auto split: option.splits)

lemma serviceMethods_storeAll:
  "serviceMethods n S ms acc = storeAll (methodTemplate n S) ms acc"
  by (induction ms arbitrary: acc) (auto split: option.splits)

lemma serviceOptionalFields_storeAll:
  "serviceOptionalFields n S E ms acc = storeAll (methodOptionalFields n S E) ms acc"
  by (induction ms arbitrary: acc) (auto split: option.splits)

lemma extractServices_visited:
  "extractServices n S ns acc = storeAll (methodTemplate n S) (visitedMethods ns) acc"
  by (induction n S ns acc rule: extractServices.induct)
    (auto simp: storeAll_append serviceMethods_storeAll split: option.splits)

lemma extractOptionalFields_visited:
  "extractOptionalFields n S E ns acc =
     storeAll (methodOptionalFields n S E) (visitedMethods ns) acc"
  by (induction n S E ns acc rule: extractOptionalFields.induct)
    (auto simp: storeAll_append serviceOptionalFields_storeAll split: option.splits)

lemma storeAll_total:
  "list_all (\<lambda>e. g (snd e) \<noteq> None) ms \<Longrightarrow> \<exists>acc'. storeAll g ms acc = Some acc'"
  by (induction ms arbitrary: acc) (auto split: option.splits)

lemma storeAll_lookup:
  "storeAll g ms acc = Some acc' \<Longrightarrow>
   map_of acc' k = (case lastNamed k ms of None \<Rightarrow> map_of acc k | Some m \<Rightarrow> g m)"
proof (induction ms arbitrary: acc)
  case Nil
  then show ?case by (simp add: lastNamed_def)
next
  case (Cons e ms)
  obtain k' m where e: "e = (k', m)" by (cases e)
  with Cons.prems obtain v where v: "g m = Some v"
    and rest: "storeAll g ms (assign acc k' v) = Some acc'"
    by (auto split: option.splits)
  from Cons.IH[OF rest] e v show ?case
    by (auto simp: lastNamed_def map_of_assign map_add_def split: option.splits)
qed

lemma storeAll_distinct:
  "storeAll g ms acc = Some acc' \<Longrightarrow> distinct (map fst acc) \<Longrightarrow> distinct (map fst acc')"
  by (induction ms arbitrary: acc) (auto simp: distinct_assign split: option.splits)

lemma one_entry:
  "distinct (map fst kvs) \<Longrightarrow> map_of kvs k = Some v \<Longrightarrow>
   length (filter (\<lambda>e. fst e = k) kvs) = 1"
proof (induction kvs)
  case Nil
  then show ?case by simp
next
  case (Cons e kvs)
  show ?case
  proof (cases "fst e = k")
    case True
    with Cons.prems(1) have "k \<notin> fst ` set kvs" by simp
    then have "filter (\<lambda>e. fst e = k) kvs = []"
      unfolding filter_empty_conv by (metis imageI)
    with True show ?thesis by simp
  next
    case False
    with Cons show ?thesis by (cases e) auto
  qed
qed

lemma storeAll_defined:
  "storeAll g ms acc = Some acc' \<Longrightarrow> lastNamed k ms = Some m \<Longrightarrow> \<exists>v. g m = Some v"
proof -
  assume st: "storeAll g ms acc = Some acc'" and l: "lastNamed k ms = Some m"
  from l have "(k, m) \<in> set ms" by (auto simp: lastNamed_def dest: map_of_SomeD)
  with st show ?thesis
    by (induction ms arbitrary: acc) (auto split: option.splits)
qed

section \<open>Ranks given by levels\<close>

lemma level_le_max:
  "map_of levels t = Some (l :: nat) \<Longrightarrow> l \<le> foldr max (map snd levels) 0"
proof (induction levels)
  case Nil
  then show ?case by simp
next
  case (Cons e levels)
  then show ?case by (cases e) (auto simp: le_max_iff_disj split: if_splits)
qed

lemma rankOf_listed: "map_of levels t = Some l \<Longrightarrow> rankOf levels t = l"
  by (simp add: rankOf_def)

lemma rankOf_unlisted:
  "map_of levels t = None \<Longrightarrow> rankOf levels t = Suc (foldr max (map snd levels) 0) + size t"
  by (simp add: rankOf_def)

lemma descending_by_levels:
  assumes types: "\<And>p nt. lookupType S p = Some nt \<Longrightarrow> map_of levels nt \<noteq> None"
    and typesOrEnums:
      "\<And>p nt. lookupTypeOrEnum S p = Some (TypeObject nt) \<Longrightarrow> map_of levels nt \<noteq> None"
    and unlinked: "\<And>f. resolvedMessage S f = None"
    and listed: "\<And>t l f nt. map_of levels t = Some l \<Longrightarrow> f \<in> set (fieldsArray t) \<Longrightarrow>
           messageOf S t (type f) = Some nt \<or> descendInto S t f = Some nt \<Longrightarrow>
           rankOf levels nt < l"
  shows "descending S (rankOf levels)"
  unfolding descending_def
proof (intro allI impI)
  fix t f nt
  assume a: "f \<in> set (fieldsArray t) \<and>
     (messageOf S t (type f) = Some nt \<or> descendInto S t f = Some nt)"
  show "rankOf levels nt < rankOf levels t"
  proof (cases "map_of levels t")
    case (Some l)
    with listed[OF Some, of f nt] a show ?thesis by (simp add: rankOf_listed)
  next
    case None
    from a messageOf_cases[of S t "type f" nt] descendInto_cases[of S t f nt] unlinked[of f]
    consider (nested) "map_of (nested t) (type f) = Some (TypeObject nt)"
      | (global) "lookupType S (type f) = Some nt \<or>
                  lookupTypeOrEnum S (type f) = Some (TypeObject nt)"
      by auto
    then show ?thesis
    proof cases
      case nested
      then have sz: "size nt < size t" by (rule nested_type_smaller)
      show ?thesis
      proof (cases "map_of levels nt")
        case None
        with \<open>map_of levels t = None\<close> sz show ?thesis by (simp add: rankOf_unlisted)
      next
        case (Some l)
        with level_le_max[OF Some] \<open>map_of levels t = None\<close> show ?thesis
          by (simp add: rankOf_unlisted rankOf_listed)
      qed
    next
      case global
      with types[of "type f" nt] typesOrEnums[of "type f" nt] obtain l where
        l: "map_of levels nt = Some l" by auto
      with level_le_max[OF l] None show ?thesis
        by (simp add: rankOf_unlisted rankOf_listed)
    qed
  qed
qed

section \<open>The schema with two services\<close>

lemma servicesLevels_values:
  "map_of servicesLevels itemType = Some 0"
  "map_of servicesLevels innerType = Some 0"
  "map_of servicesLevels entryType = Some 0"
  "map_of servicesLevels timestampType = Some 0"
  "map_of servicesLevels nestedOuterType = Some 1"
  "map_of servicesLevels mixedType = Some 1"
  by (simp_all add: servicesLevels_def itemType_def innerType_def entryType_def
      timestampType_def nestedOuterType_def mixedType_def)

lemma servicesLevels_listed:
  "map_of servicesLevels t = Some l \<Longrightarrow>
   t \<in> {itemType, innerType, entryType, timestampType} \<and> l = 0 \<or>
   t \<in> {nestedOuterType, mixedType} \<and> l = 1"
  by (auto simp: servicesLevels_def split: if_splits)

lemma servicesRoot_types:
  "lookupType servicesRoot p = Some nt \<Longrightarrow> map_of servicesLevels nt \<noteq> None"
  "lookupTypeOrEnum servicesRoot p = Some (TypeObject nt) \<Longrightarrow> map_of servicesLevels nt \<noteq> None"
  "resolvedMessage servicesRoot f = None"
  by (auto simp: servicesRoot_def resolvedMessage_def servicesLevels_values
      split: if_splits option.splits)

lemma servicesRoot_leaves:
  "t \<in> {itemType, innerType, entryType, timestampType} \<Longrightarrow> f \<in> set (fieldsArray t) \<Longrightarrow>
   messageOf servicesRoot t (type f) = None \<and> descendInto servicesRoot t f = None"
  by (auto simp: itemType_def innerType_def entryType_def timestampType_def messageOf_def
      scalarName_def primitiveCase_def descendInto_def servicesRoot_types(3))

lemma servicesRoot_edges:
  "f \<in> set (fieldsArray nestedOuterType) \<Longrightarrow>
   messageOf servicesRoot nestedOuterType (type f) = Some innerType \<and>
   descendInto servicesRoot nestedOuterType f = Some innerType"
  "f \<in> set (fieldsArray mixedType) \<Longrightarrow>
   (messageOf servicesRoot mixedType (type f) = Some nt \<longrightarrow> nt = entryType) \<and>
   (descendInto servicesRoot mixedType f = Some nt \<longrightarrow> nt = entryType)"
  by (auto simp: nestedOuterType_def mixedType_def messageOf_def scalarName_def
      primitiveCase_def timestampName_def resolveType_def descendInto_def
      servicesRoot_types(3))

lemma servicesRoot_descending: "descending servicesRoot (rankOf servicesLevels)"
proof (rule descending_by_levels)
  fix t l f nt
  assume t: "map_of servicesLevels t = Some l" and f: "f \<in> set (fieldsArray t)"
    and e: "messageOf servicesRoot t (type f) = Some nt \<or> descendInto servicesRoot t f = Some nt"
  from servicesLevels_listed[OF t]
  consider (leaf) "t \<in> {itemType, innerType, entryType, timestampType}"
    | (outer) "t = nestedOuterType" "l = 1" | (mixed) "t = mixedType" "l = 1"
    by auto
  then show "rankOf servicesLevels nt < l"
  proof cases
    case leaf
    from servicesRoot_leaves[OF leaf f] e show ?thesis by simp
  next
    case outer
    with servicesRoot_edges(1)[of f] f e have "nt = innerType" by auto
    with outer show ?thesis by (simp add: rankOf_listed[OF servicesLevels_values(2)])
  next
    case mixed
    with servicesRoot_edges(2)[of f nt] f e have "nt = entryType" by auto
    with mixed show ?thesis by (simp add: rankOf_listed[OF servicesLevels_values(3)])
  qed
qed (rule servicesRoot_types; assumption)+

lemma servicesRoot_ranks:
  "rankOf servicesLevels itemType = 0"
  "rankOf servicesLevels nestedOuterType = 1"
  "rankOf servicesLevels mixedType = 1"
  by (simp_all add: rankOf_listed servicesLevels_values)

lemma servicesRoot_visited:
  "visitedMethods (rootNested servicesRoot) =
     [(''Get'', Method ''Item'' ''Item''), (''Lost'', Method ''Nowhere'' ''Item''),
      (''Get'', Method ''Outer'' ''Item''), (''Put'', Method ''Req'' ''Item'')]"
  by (simp add: servicesRoot_def googleNamespace_def timestampType_def
      itemType_def nestedOuterType_def mixedType_def innerType_def entryType_def)

lemma servicesRoot_lookup:
  "lookupType servicesRoot ''Item'' = Some itemType"
  "lookupType servicesRoot ''Nowhere'' = None"
  "lookupType servicesRoot ''Outer'' = Some nestedOuterType"
  "lookupType servicesRoot ''Req'' = Some mixedType"
  by (simp_all add: servicesRoot_def)

lemma servicesRoot_templates:
  "generateEmptyJsonTemplate (Suc (Suc 0)) servicesRoot itemType =
     Some (JObject [(''id'', JNumber 0)])"
  "generateEmptyJsonTemplate (Suc (Suc 0)) servicesRoot nestedOuterType =
     Some (JObject [(''a'', JObject [(''x'', JString '''')]),
                    (''b'', JObject [(''x'', JString '''')])])"
  "generateEmptyJsonTemplate (Suc (Suc 0)) servicesRoot mixedType =
     Some (JObject [(''entries'', JArray []), (''n'', JNumber 0)])"
  by (simp_all add: itemType_def nestedOuterType_def mixedType_def innerType_def
      entryType_def generation_simps primitiveCase_def timestampName_def)

lemma servicesProto_scan:
  "parseExplicitOptionalFields servicesProto = [''Outer.Inner.x'', ''Req.Entry.x'', ''Req.n'']"
  by (simp add: servicesProto_def scan_simps)

lemma servicesRoot_optional:
  "getOptionalFieldsFromTypeWithExplicit (Suc (Suc 0)) servicesRoot itemType
     [''Outer.Inner.x'', ''Req.Entry.x'', ''Req.n''] = Some []"
  "getOptionalFieldsFromTypeWithExplicit (Suc (Suc 0)) servicesRoot nestedOuterType
     [''Outer.Inner.x'', ''Req.Entry.x'', ''Req.n''] = Some [''a.x'', ''b.x'']"
  "getOptionalFieldsFromTypeWithExplicit (Suc (Suc 0)) servicesRoot mixedType
     [''Outer.Inner.x'', ''Req.Entry.x'', ''Req.n''] = Some [''entries.x'', ''n'']"
  by (simp_all add: getOptionalFieldsFromTypeWithExplicit_def itemType_def
      nestedOuterType_def mixedType_def innerType_def entryType_def
      descendInto_def servicesRoot_types(3) dotted_def Let_def)

lemma ranked_methods_have_templates:
  assumes "descending S rk"
    and "list_all (\<lambda>e. case lookupType S (requestType (snd e)) of
                          None \<Rightarrow> True
                        | Some rt \<Rightarrow> rk rt < n) ms"
  shows "list_all (\<lambda>e. methodTemplate n S (snd e) \<noteq> None) ms"
    and "list_all (\<lambda>e. methodOptionalFields n S E (snd e) \<noteq> None) ms"
proof -
  have "methodTemplate n S (snd e) \<noteq> None \<and> methodOptionalFields n S E (snd e) \<noteq> None"
    if "e \<in> set ms" for e
  proof (cases "lookupType S (requestType (snd e))")
    case None
    then show ?thesis by (simp add: methodTemplate_def methodOptionalFields_def)
  next
    case (Some rt)
    with assms(2) that have "rk rt < n" by (auto simp: list_all_iff)
    from generate_total_ranked[OF assms(1) this]
      extract_total_ranked[OF assms(1) this, of E "[]" "[]" "[]"] Some
    show ?thesis
      by (auto simp: methodTemplate_def methodOptionalFields_def
          getOptionalFieldsFromTypeWithExplicit_def)
  qed
  then show "list_all (\<lambda>e. methodTemplate n S (snd e) \<noteq> None) ms"
    and "list_all (\<lambda>e. methodOptionalFields n S E (snd e) \<noteq> None) ms"
    by (simp_all add: list_all_iff)
qed


section \<open>The method catalogs are keyed by bare method name\<close>

text \<open>
  C7. A method whose request type cannot be looked up does not stop the build and is not
  left out. In every catalog that \<open>parseProtoContent\<close> returns, its entry (the one
  stored when it is the last method visited under its name) is the empty object, and the
  entry of every method whose request type is found is the template generated for that
  request type. In every map that \<open>getOptionalFieldsMap\<close> returns its entry is the
  empty list, and the entry of every method whose request type is found is the list
  extracted from that request type. On a schema with acyclic message references both
  builds return, at every depth bound above the ranks of the request types that are
  found: the methods without a request type ask for nothing.
\<close>

theorem unresolved_request_type_is_isolated:
  assumes "lastNamed methodName (visitedMethods (rootNested S)) = Some m"
    and "lookupType S (requestType m) = None"
  shows "(\<forall>catalog. parseProtoContent n S = Some catalog \<longrightarrow>
            map_of catalog methodName = Some (JObject []) \<and>
            (\<forall>k m' rt. lastNamed k (visitedMethods (rootNested S)) = Some m' \<and>
                 lookupType S (requestType m') = Some rt \<longrightarrow>
               (\<exists>tpl. generateEmptyJsonTemplate n S rt = Some tpl \<and>
                      map_of catalog k = Some tpl)))
       \<and> (\<forall>fieldsMap. getOptionalFieldsMap n S protoContent = Some fieldsMap \<longrightarrow>
            map_of fieldsMap methodName = Some [] \<and>
            (\<forall>k m' rt. lastNamed k (visitedMethods (rootNested S)) = Some m' \<and>
                 lookupType S (requestType m') = Some rt \<longrightarrow>
               (\<exists>ps. getOptionalFieldsFromTypeWithExplicit n S rt
                        (parseExplicitOptionalFields protoContent) = Some ps \<and>
                     map_of fieldsMap k = Some ps)))
       \<and> (descending S rk \<and>
          list_all (\<lambda>e. case lookupType S (requestType (snd e)) of
                           None \<Rightarrow> True
                         | Some rt \<Rightarrow> rk rt < n)
            (visitedMethods (rootNested S)) \<longrightarrow>
            (\<exists>catalog. parseProtoContent n S = Some catalog) \<and>
            (\<exists>fieldsMap. getOptionalFieldsMap n S protoContent = Some fieldsMap))"
proof (intro conjI allI impI)
  fix catalog
  assume "parseProtoContent n S = Some catalog"
  then have st:
    "storeAll (methodTemplate n S) (visitedMethods (rootNested S)) [] = Some catalog"
    by (simp add: parseProtoContent_def extractServices_visited)
  from storeAll_lookup[OF st, of methodName] assms
  show "map_of catalog methodName = Some (JObject [])"
    by (simp add: methodTemplate_def)
  fix k m' rt
  assume a: "lastNamed k (visitedMethods (rootNested S)) = Some m' \<and>
             lookupType S (requestType m') = Some rt"
  with storeAll_lookup[OF st, of k] storeAll_defined[OF st, of k m']
  show "\<exists>tpl. generateEmptyJsonTemplate n S rt = Some tpl \<and> map_of catalog k = Some tpl"
    by (auto simp: methodTemplate_def)
next
  let ?E = "parseExplicitOptionalFields protoContent"
  fix fieldsMap
  assume "getOptionalFieldsMap n S protoContent = Some fieldsMap"
  then have st: "storeAll (methodOptionalFields n S ?E)
                   (visitedMethods (rootNested S)) [] = Some fieldsMap"
    by (simp add: getOptionalFieldsMap_def extractOptionalFields_visited)
  from storeAll_lookup[OF st, of methodName] assms
  show "map_of fieldsMap methodName = Some []"
    by (simp add: methodOptionalFields_def)
  fix k m' rt
  assume a: "lastNamed k (visitedMethods (rootNested S)) = Some m' \<and>
             lookupType S (requestType m') = Some rt"
  with storeAll_lookup[OF st, of k] storeAll_defined[OF st, of k m']
  show "\<exists>ps. getOptionalFieldsFromTypeWithExplicit n S rt ?E = Some ps \<and>
             map_of fieldsMap k = Some ps"
    by (auto simp: methodOptionalFields_def)
next
  assume a: "descending S rk \<and>
    list_all (\<lambda>e. case lookupType S (requestType (snd e)) of
                     None \<Rightarrow> True
                   | Some rt \<Rightarrow> rk rt < n)
      (visitedMethods (rootNested S))"
  from storeAll_total[OF ranked_methods_have_templates(1)[of S rk n]] a
  show "\<exists>catalog. parseProtoContent n S = Some catalog"
    by (simp add: parseProtoContent_def extractServices_visited)
next
  assume a: "descending S rk \<and>
    list_all (\<lambda>e. case lookupType S (requestType (snd e)) of
                     None \<Rightarrow> True
                   | Some rt \<Rightarrow> rk rt < n)
      (visitedMethods (rootNested S))"
  from storeAll_total[OF ranked_methods_have_templates(2)[of S rk n]] a
  show "\<exists>fieldsMap. getOptionalFieldsMap n S protoContent = Some fieldsMap"
    by (simp add: getOptionalFieldsMap_def extractOptionalFields_visited)
qed

text \<open>
  In the example the request type of \<open>Lost\<close> does not exist. Both builds complete; the
  entry of \<open>Lost\<close> is empty, and the entries of \<open>Get\<close> and \<open>Put\<close> are those of
  their request types \<open>Outer\<close> and \<open>Req\<close>.
\<close>

theorem unresolved_request_type_is_isolated_witness:
  "(\<exists>catalog. parseProtoContent (Suc (Suc 0)) servicesRoot = Some catalog \<and>
      map_of catalog ''Lost'' = Some (JObject []) \<and>
      map_of catalog ''Get'' =
        Some (JObject [(''a'', JObject [(''x'', JString '''')]),
                       (''b'', JObject [(''x'', JString '''')])]) \<and>
      map_of catalog ''Put'' = Some (JObject [(''entries'', JArray []), (''n'', JNumber 0)])) \<and>
   (\<exists>fieldsMap. getOptionalFieldsMap (Suc (Suc 0)) servicesRoot servicesProto = Some fieldsMap \<and>
      map_of fieldsMap ''Lost'' = Some [] \<and>
      map_of fieldsMap ''Get'' = Some [''a.x'', ''b.x''] \<and>
      map_of fieldsMap ''Put'' = Some [''entries.x'', ''n''])"
proof -
  let ?visited = "visitedMethods (rootNested servicesRoot)"
  have l: "lastNamed ''Lost'' ?visited = Some (Method ''Nowhere'' ''Item'')"
    and g: "lastNamed ''Get'' ?visited = Some (Method ''Outer'' ''Item'')"
    and p: "lastNamed ''Put'' ?visited = Some (Method ''Req'' ''Item'')"
    by (simp_all add: servicesRoot_visited lastNamed_def)
  have u: "lookupType servicesRoot (requestType (Method ''Nowhere'' ''Item'')) = None"
    and gl: "lookupType servicesRoot (requestType (Method ''Outer'' ''Item'')) =
               Some nestedOuterType"
    and pl: "lookupType servicesRoot (requestType (Method ''Req'' ''Item'')) = Some mixedType"
    by (simp_all add: servicesRoot_lookup)
  have r: "list_all (\<lambda>e. case lookupType servicesRoot (requestType (snd e)) of
                            None \<Rightarrow> True
                          | Some rt \<Rightarrow> rankOf servicesLevels rt < Suc (Suc 0)) ?visited"
    by (simp add: servicesRoot_visited servicesRoot_lookup servicesRoot_ranks)
  note iso = unresolved_request_type_is_isolated[OF l u,
      of "Suc (Suc 0)" servicesProto "rankOf servicesLevels"]
  from iso servicesRoot_descending r obtain catalog fieldsMap where
    c: "parseProtoContent (Suc (Suc 0)) servicesRoot = Some catalog" and
    f: "getOptionalFieldsMap (Suc (Suc 0)) servicesRoot servicesProto = Some fieldsMap"
    by blast
  from iso c have cl: "map_of catalog ''Lost'' = Some (JObject [])"
    and co: "\<And>k m' rt. lastNamed k ?visited = Some m' \<Longrightarrow>
               lookupType servicesRoot (requestType m') = Some rt \<Longrightarrow>
               \<exists>tpl. generateEmptyJsonTemplate (Suc (Suc 0)) servicesRoot rt = Some tpl \<and>
                     map_of catalog k = Some tpl"
    by blast+
  from iso f have fl: "map_of fieldsMap ''Lost'' = Some []"
    and fo: "\<And>k m' rt. lastNamed k ?visited = Some m' \<Longrightarrow>
               lookupType servicesRoot (requestType m') = Some rt \<Longrightarrow>
               \<exists>ps. getOptionalFieldsFromTypeWithExplicit (Suc (Suc 0)) servicesRoot rt
                       (parseExplicitOptionalFields servicesProto) = Some ps \<and>
                    map_of fieldsMap k = Some ps"
    by blast+
  from co[OF g gl] co[OF p pl] fo[OF g gl] fo[OF p pl] c f cl fl show ?thesis
    by (simp add: servicesRoot_templates servicesProto_scan servicesRoot_optional
        del: generateEmptyJsonTemplate.simps)
qed

text \<open>
  C8. Among the methods that the walk reaches under one bare name, the last one decides:
  every catalog that \<open>parseProtoContent\<close> returns has exactly one entry under that
  name, and it holds what was stored for the last method, the template generated for its
  request type. On a schema with acyclic message references a catalog is returned, at
  every depth bound above the ranks of the request types that are found.
\<close>

theorem same_method_name_last_wins:
  assumes "lastNamed methodName (visitedMethods (rootNested S)) = Some m"
  shows "(\<forall>catalog. parseProtoContent n S = Some catalog \<longrightarrow>
            length (filter (\<lambda>e. fst e = methodName) catalog) = 1 \<and>
            map_of catalog methodName = methodTemplate n S m \<and>
            (\<forall>rt. lookupType S (requestType m) = Some rt \<longrightarrow>
               map_of catalog methodName = generateEmptyJsonTemplate n S rt))
       \<and> (descending S rk \<and>
          list_all (\<lambda>e. case lookupType S (requestType (snd e)) of
                           None \<Rightarrow> True
                         | Some rt \<Rightarrow> rk rt < n)
            (visitedMethods (rootNested S)) \<longrightarrow>
            (\<exists>catalog. parseProtoContent n S = Some catalog))"
proof (intro conjI allI impI)
  fix catalog
  assume "parseProtoContent n S = Some catalog"
  then have st:
    "storeAll (methodTemplate n S) (visitedMethods (rootNested S)) [] = Some catalog"
    by (simp add: parseProtoContent_def extractServices_visited)
  from storeAll_lookup[OF st, of methodName] assms
  show v: "map_of catalog methodName = methodTemplate n S m" by simp
  from storeAll_distinct[OF st] have d: "distinct (map fst catalog)" by simp
  from storeAll_defined[OF st assms] v
  obtain tpl where "map_of catalog methodName = Some tpl" by auto
  with d show "length (filter (\<lambda>e. fst e = methodName) catalog) = 1" by (rule one_entry)
  fix rt
  assume "lookupType S (requestType m) = Some rt"
  with v show "map_of catalog methodName = generateEmptyJsonTemplate n S rt"
    by (simp add: methodTemplate_def)
next
  assume a: "descending S rk \<and>
    list_all (\<lambda>e. case lookupType S (requestType (snd e)) of
                     None \<Rightarrow> True
                   | Some rt \<Rightarrow> rk rt < n)
      (visitedMethods (rootNested S))"
  from storeAll_total[OF ranked_methods_have_templates(1)[of S rk n]] a
  show "\<exists>catalog. parseProtoContent n S = Some catalog"
    by (simp add: parseProtoContent_def extractServices_visited)
qed

text \<open>
  The services \<open>First\<close> and \<open>Second\<close> both declare \<open>Get\<close>, with the request types
  \<open>Item\<close> and \<open>Outer\<close>; the one entry is the template of \<open>Outer\<close>, the request type
  in \<open>Second\<close>, and not the template \<open>{id: 0}\<close> of \<open>Item\<close>.
\<close>

theorem same_method_name_last_wins_witness:
  "\<exists>catalog. parseProtoContent (Suc (Suc 0)) servicesRoot = Some catalog \<and>
     length (filter (\<lambda>e. fst e = ''Get'') catalog) = 1 \<and>
     map_of catalog ''Get'' = generateEmptyJsonTemplate (Suc (Suc 0)) servicesRoot nestedOuterType \<and>
     map_of catalog ''Get'' =
       Some (JObject [(''a'', JObject [(''x'', JString '''')]),
                      (''b'', JObject [(''x'', JString '''')])])"
proof -
  let ?visited = "visitedMethods (rootNested servicesRoot)"
  have g: "lastNamed ''Get'' ?visited = Some (Method ''Outer'' ''Item'')"
    by (simp add: servicesRoot_visited lastNamed_def)
  have gl: "lookupType servicesRoot (requestType (Method ''Outer'' ''Item'')) =
              Some nestedOuterType"
    by (simp add: servicesRoot_lookup)
  have r: "list_all (\<lambda>e. case lookupType servicesRoot (requestType (snd e)) of
                            None \<Rightarrow> True
                          | Some rt \<Rightarrow> rankOf servicesLevels rt < Suc (Suc 0)) ?visited"
    by (simp add: servicesRoot_visited servicesRoot_lookup servicesRoot_ranks)
  note last = same_method_name_last_wins[OF g, of "Suc (Suc 0)" "rankOf servicesLevels"]
  from last servicesRoot_descending r obtain catalog where
    c: "parseProtoContent (Suc (Suc 0)) servicesRoot = Some catalog"
    by blast
  from last c gl have "length (filter (\<lambda>e. fst e = ''Get'') catalog) = 1"
    and "map_of catalog ''Get'' =
           generateEmptyJsonTemplate (Suc (Suc 0)) servicesRoot nestedOuterType"
    by blast+
  with c show ?thesis
    by (simp add: servicesRoot_templates del: generateEmptyJsonTemplate.simps)
qed


section \<open>Facts about the scan and the extractor\<close>

lemma popMessages_take: "popMessages k st = take (length st - k) st"
proof (induction k arbitrary: st)
  case 0
  then show ?case by simp
next
  case (Suc k)
  show ?case
  proof (cases "st = []")
    case True
    with Suc show ?thesis by simp
  next
    case False
    with Suc[of "butlast st"] show ?thesis
      by (simp add: butlast_conv_take)
  qed
qed

lemma scanLine_stack:
  assumes "trim line \<noteq> []" and "\<not> startsWith (trim line) ''//''"
    and "messageMatch (trim line) = None"
  shows "messageStack (scanLine st line) =
           take (length (messageStack st) - countChar (CHR ''}'') line) (messageStack st)"
  using assms by (simp add: scanLine_def Let_def popMessages_take)

lemma dotted_has_dot: "CHR ''.'' \<in> set (dotted tp (tn @ ''.'' @ x))"
  by (simp add: dotted_def)

lemma extractFields_no_dotless:
  assumes "\<And>p. p \<in> set E \<Longrightarrow> CHR ''.'' \<notin> set p"
    and "\<And>nt fp tp acc r. extractOptionalFieldsRecursive n S E nt fp tp acc = Some r \<Longrightarrow> r = acc"
  shows "extractFields n S E t fp tp fs acc = Some r \<Longrightarrow> r = acc"
proof (induction fs arbitrary: acc)
  case Nil
  then show ?case by simp
next
  case (Cons f fs)
  from assms(1) dotted_has_dot[of tp "typeName t" "name f"]
  have no: "dotted tp (typeName t @ ''.'' @ name f) \<notin> set E" by blast
  show ?case
  proof (cases "descendInto S t f")
    case None
    with Cons no show ?thesis by (simp add: Let_def)
  next
    case (Some nt)
    with Cons.prems no obtain d where
      d: "extractOptionalFieldsRecursive n S E nt (dotted fp (name f)) (dotted tp (typeName t))
            acc = Some d"
      and rest: "extractFields n S E t fp tp fs d = Some r"
      by (auto simp: Let_def split: option.splits)
    from assms(2)[OF d] Cons.IH[OF rest] show ?thesis by simp
  qed
qed

lemma extract_no_dotless:
  assumes "\<And>p. p \<in> set E \<Longrightarrow> CHR ''.'' \<notin> set p"
  shows "extractOptionalFieldsRecursive n S E t fp tp acc = Some r \<Longrightarrow> r = acc"
proof (induction n arbitrary: t fp tp acc r)
  case 0
  then show ?case by simp
next
  case (Suc n)
  from Suc.prems have "extractFields n S E t fp tp (fieldsArray t) acc = Some r" by simp
  from extractFields_no_dotless[OF assms Suc.IH this] show ?case .
qed

lemma enumFirst_scan: "parseExplicitOptionalFields enumFirstProto = [''age'']"
  by (simp add: enumFirstProto_def scan_simps)

lemma enumLast_scan: "parseExplicitOptionalFields enumLastProto = [''M.age'']"
  by (simp add: enumLastProto_def scan_simps)

section \<open>Closing braces in the scan\<close>

text \<open>
  C10. On a line that is not skipped and declares no message, the scan removes one name
  from the message stack for each closing brace of the line, as long as names are left,
  without regard to what the brace closes. In \<open>enumFirstProto\<close> the brace that closes
  the enum removes \<open>M\<close>, and the optional field \<open>age\<close> declared after it inside
  \<open>M\<close> is recorded as \<open>age\<close> instead of \<open>M.age\<close> (which is what is recorded when the
  field comes before the enum). The extractor only looks up keys of the form
  \<open>Type.field\<close>, so for no message type does it report anything from the set
  \<open>{age}\<close>; for \<open>M\<close> itself it returns the empty list, and \<open>[age]\<close> from the
  set \<open>{M.age}\<close>.
\<close>

theorem closing_brace_pops_enclosing_message:
  "(trim line \<noteq> [] \<and> \<not> startsWith (trim line) ''//'' \<and> messageMatch (trim line) = None \<longrightarrow>
      messageStack (scanLine st line) =
        take (length (messageStack st) - countChar (CHR ''}'') line) (messageStack st))
   \<and> parseExplicitOptionalFields enumFirstProto = [''age'']
   \<and> parseExplicitOptionalFields enumLastProto = [''M.age'']
   \<and> (getOptionalFieldsFromTypeWithExplicit n S t [''age''] = None \<or>
       getOptionalFieldsFromTypeWithExplicit n S t [''age''] = Some [])
   \<and> getOptionalFieldsFromTypeWithExplicit (Suc 0) S enumFirstType [''age''] = Some []
   \<and> getOptionalFieldsFromTypeWithExplicit (Suc 0) S enumFirstType [''M.age''] = Some [''age'']"
proof (intro conjI impI)
  assume "trim line \<noteq> [] \<and> \<not> startsWith (trim line) ''//'' \<and> messageMatch (trim line) = None"
  then show "messageStack (scanLine st line) =
        take (length (messageStack st) - countChar (CHR ''}'') line) (messageStack st)"
    by (simp add: scanLine_stack)
next
  show "parseExplicitOptionalFields enumFirstProto = [''age'']" by (rule enumFirst_scan)
next
  show "parseExplicitOptionalFields enumLastProto = [''M.age'']" by (rule enumLast_scan)
next
  have "r = []" if "extractOptionalFieldsRecursive n S [''age''] t [] [] [] = Some r" for r
    using extract_no_dotless[where E = "[''age'']" and n = n and S = S and t = t
        and fp = "[]" and tp = "[]" and acc = "[]" and r = r] that
    by simp
  then show "getOptionalFieldsFromTypeWithExplicit n S t [''age''] = None \<or>
        getOptionalFieldsFromTypeWithExplicit n S t [''age''] = Some []"
    by (cases "getOptionalFieldsFromTypeWithExplicit n S t [''age'']")
      (auto simp: getOptionalFieldsFromTypeWithExplicit_def)
next
  show "getOptionalFieldsFromTypeWithExplicit (Suc 0) S enumFirstType [''age''] = Some []"
    by (simp add: getOptionalFieldsFromTypeWithExplicit_def enumFirstType_def
        descendInto_def resolvedMessage_def dotted_def Let_def)
next
  show "getOptionalFieldsFromTypeWithExplicit (Suc 0) S enumFirstType [''M.age''] = Some [''age'']"
    by (simp add: getOptionalFieldsFromTypeWithExplicit_def enumFirstType_def
        descendInto_def resolvedMessage_def dotted_def Let_def)
qed

text \<open>
  The line that closes the enum, with the stack \<open>[M, Color]\<close> that a tracking of
  blocks would have, and with the stack \<open>[M]\<close> that the scan has at that point.
\<close>

theorem closing_brace_pops_enclosing_message_witness:
  "messageStack (scanLine \<lparr> messageStack = [''M'', ''Color''], braceDepth = 2,
                           explicitOptionalFields = [] \<rparr> ''  }'') = [''M'']
   \<and> messageStack (scanLine \<lparr> messageStack = [''M''], braceDepth = 1,
                           explicitOptionalFields = [] \<rparr> ''  }'') = []"
proof -
  have h: "trim ''  }'' \<noteq> [] \<and> \<not> startsWith (trim ''  }'') ''//'' \<and>
           messageMatch (trim ''  }'') = None"
    by (simp add: trim_def startsWith_def messageMatch_def isSpace_def Let_def)
  have c: "countChar (CHR ''}'') ''  }'' = 1" by (simp add: countChar_def)
  from closing_brace_pops_enclosing_message[of "''  }''"
      "\<lparr> messageStack = [''M'', ''Color''], braceDepth = 2, explicitOptionalFields = [] \<rparr>"]
    closing_brace_pops_enclosing_message[of "''  }''"
      "\<lparr> messageStack = [''M''], braceDepth = 1, explicitOptionalFields = [] \<rparr>"] h c
  show ?thesis by simp
qed

section \<open>Extracted paths and template keys\<close>

lemma keyPaths_key: "(k, v) \<in> set kvs \<Longrightarrow> k \<in> set (keyPaths (JObject kvs))"
  by force

lemma keyPaths_deeper:
  "(k, v) \<in> set kvs \<Longrightarrow> q \<in> set (keyPaths v) \<Longrightarrow> k @ ''.'' @ q \<in> set (keyPaths (JObject kvs))"
  by force

lemma dotted_dotted: "x \<noteq> [] \<Longrightarrow> dotted (dotted fp x) q = dotted fp (x @ ''.'' @ q)"
  by (simp add: dotted_def)

lemma getEmptyValueForType_message:
  "messageOf S t ft = Some nt \<Longrightarrow>
   getEmptyValueForType n ft S t = generateEmptyJsonTemplate n S nt"
  by (auto simp: messageOf_def getEmptyValueForType_resolved
      split: if_splits option.splits reflection.splits)

lemmas extract_simps = getOptionalFieldsFromTypeWithExplicit_def descendInto_def
  resolvedMessage_def dotted_def Let_def

lemma repeated_scan: "parseExplicitOptionalFields repeatedProto = [''Req.Item.x'']"
  by (simp add: repeatedProto_def scan_simps)

lemma repeated_extract:
  "getOptionalFieldsFromTypeWithExplicit (Suc (Suc 0)) repeatedRoot repeatedType [''Req.Item.x'']
     = Some [''items.x'']"
  by (simp add: extract_simps repeatedType_def repeatedItem_def)

lemma repeated_template:
  "generateEmptyJsonTemplate (Suc (Suc 0)) repeatedRoot repeatedType =
     Some (JObject [(''items'', JArray [])])"
  by (simp add: repeatedType_def repeatedItem_def generation_simps)

lemma nested_scan: "parseExplicitOptionalFields nestedInnerProto = [''Outer.Inner.x'']"
  by (simp add: nestedInnerProto_def scan_simps)

lemma nested_extract:
  "getOptionalFieldsFromTypeWithExplicit (Suc (Suc 0)) nestedRoot nestedOuterType
     [''Outer.Inner.x''] = Some [''a.x'', ''b.x'']"
  by (simp add: extract_simps nestedOuterType_def innerType_def)

lemma innerOuter_scan: "parseExplicitOptionalFields innerOuterProto = [''Inner.x'']"
  by (simp add: innerOuterProto_def scan_simps)

lemma innerOuter_extract:
  "getOptionalFieldsFromTypeWithExplicit (Suc (Suc 0)) innerOuterRoot outerType [''Inner.x'']
     = Some []"
  "getOptionalFieldsFromTypeWithExplicit (Suc (Suc 0)) innerOuterRoot outerLinked [''Inner.x'']
     = Some []"
  by (simp_all add: extract_simps outerType_def outerLinked_def innerType_def innerOuterRoot_def)

lemma innerOuter_template:
  "generateEmptyJsonTemplate (Suc (Suc 0)) innerOuterRoot outerType =
     Some (JObject [(''a'', JObject [(''x'', JString '''')]),
                    (''b'', JObject [(''x'', JString '''')])])"
  by (simp add: outerType_def innerType_def innerOuterRoot_def generation_simps)

lemma extractFields_prefixed:
  assumes fp: "fp \<noteq> []"
    and rec: "\<And>f nt tp' acc r.
        extractOptionalFieldsRecursive n S E nt (dotted fp (name f)) tp' acc = Some r \<Longrightarrow>
        \<exists>new. r = acc @ new \<and> (\<forall>p \<in> set new. \<exists>x. p = dotted fp (name f) @ ''.'' @ x)"
  shows "extractFields n S E t fp tp fs acc = Some r \<Longrightarrow>
         \<exists>new. r = acc @ new \<and> (\<forall>p \<in> set new. \<exists>x. p = fp @ ''.'' @ x)"
proof (induction fs arbitrary: acc)
  case Nil
  then show ?case by simp
next
  case (Cons f fs)
  let ?path = "dotted fp (name f)"
  let ?pushed = "if dotted tp (typeName t @ ''.'' @ name f) \<in> set E
                 then acc @ [?path] else acc"
  from fp have path: "?path = fp @ ''.'' @ name f" by (simp add: dotted_def)
  then have below: "\<exists>y. ?path @ ''.'' @ x = fp @ ''.'' @ y" for x by simp
  from path obtain p0 where
    p0: "?pushed = acc @ p0" "\<forall>p \<in> set p0. \<exists>x. p = fp @ ''.'' @ x"
    by (cases "dotted tp (typeName t @ ''.'' @ name f) \<in> set E") auto
  show ?case
  proof (cases "descendInto S t f")
    case None
    with Cons.prems have "extractFields n S E t fp tp fs ?pushed = Some r"
      by (simp add: Let_def)
    from Cons.IH[OF this] obtain p2 where
      p2: "r = ?pushed @ p2" "\<forall>p \<in> set p2. \<exists>x. p = fp @ ''.'' @ x" by blast
    have "r = acc @ (p0 @ p2)" using p0(1) p2(1) by simp
    moreover have "\<forall>p \<in> set (p0 @ p2). \<exists>x. p = fp @ ''.'' @ x"
      using p0(2) p2(2) by auto
    ultimately show ?thesis by blast
  next
    case (Some nt)
    with Cons.prems obtain dp where
      dp: "extractOptionalFieldsRecursive n S E nt ?path (dotted tp (typeName t)) ?pushed
             = Some dp"
      and rest: "extractFields n S E t fp tp fs dp = Some r"
      by (auto simp: Let_def split: option.splits)
    from rec[OF dp] obtain p1 where
      p1: "dp = ?pushed @ p1" "\<forall>p \<in> set p1. \<exists>x. p = ?path @ ''.'' @ x" by blast
    have p1': "\<forall>p \<in> set p1. \<exists>x. p = fp @ ''.'' @ x"
    proof
      fix p
      assume "p \<in> set p1"
      with p1(2) obtain x where "p = ?path @ ''.'' @ x" by blast
      with below[of x] show "\<exists>x. p = fp @ ''.'' @ x" by simp
    qed
    from Cons.IH[OF rest] obtain p2 where
      p2: "r = dp @ p2" "\<forall>p \<in> set p2. \<exists>x. p = fp @ ''.'' @ x" by blast
    have "r = acc @ (p0 @ p1 @ p2)" using p0(1) p1(1) p2(1) by simp
    moreover have "\<forall>p \<in> set (p0 @ p1 @ p2). \<exists>x. p = fp @ ''.'' @ x"
      using p0(2) p1' p2(2) by auto
    ultimately show ?thesis by blast
  qed
qed

lemma extract_prefixed:
  "fp \<noteq> [] \<Longrightarrow> extractOptionalFieldsRecursive n S E t fp tp acc = Some r \<Longrightarrow>
   \<exists>new. r = acc @ new \<and> (\<forall>p \<in> set new. \<exists>x. p = fp @ ''.'' @ x)"
proof (induction n arbitrary: t fp tp acc r)
  case 0
  then show ?case by simp
next
  case (Suc n)
  from Suc.prems(2) have ex: "extractFields n S E t fp tp (fieldsArray t) acc = Some r" by simp
  from Suc.prems(1) have ne: "dotted fp x \<noteq> []" for x by (simp add: dotted_def)
  show ?case
    by (rule extractFields_prefixed[OF Suc.prems(1) _ ex]) (rule Suc.IH[OF ne])
qed

lemma extractFields_paths:
  assumes wn: "wellNamed (Suc n) S t"
    and kvs: "templateFields m S t (fieldsArray t) [] = Some kvs"
    and rec: "\<And>nt fp tp acc r k tpl.
        wellNamed n S nt \<Longrightarrow> extractOptionalFieldsRecursive n S E nt fp tp acc = Some r \<Longrightarrow>
        generateEmptyJsonTemplate k S nt = Some tpl \<Longrightarrow>
        \<exists>new. r = acc @ new \<and>
          (\<forall>p \<in> set new. p \<in> dotted fp ` set (keyPaths tpl) \<or>
             (\<exists>q \<in> set (strayFields n S nt fp). \<exists>x. p = q @ ''.'' @ x))"
    and sub: "set fs \<subseteq> set (fieldsArray t)"
    and ex: "extractFields n S E t fp tp fs acc = Some r"
  shows "\<exists>new. r = acc @ new \<and>
           (\<forall>p \<in> set new. p \<in> dotted fp ` set (keyPaths (JObject kvs)) \<or>
              (\<exists>q \<in> set (strayFields (Suc n) S t fp). \<exists>x. p = q @ ''.'' @ x))"
proof -
  define keys where "keys = dotted fp ` set (keyPaths (JObject kvs))"
  define strays where "strays = set (strayFields (Suc n) S t fp)"
  define good where "good p \<longleftrightarrow> p \<in> keys \<or> (\<exists>q \<in> strays. \<exists>x. p = q @ ''.'' @ x)" for p
  have strays_here: "dotted fp (name f) \<in> strays"
    if "f \<in> set (fieldsArray t)" "descendInto S t f = Some nt"
      "\<not> (rule f \<noteq> Some ''repeated'' \<and> messageOf S t (type f) = Some nt)" for f nt
  proof -
    have "dotted fp (name f) \<in> set (case descendInto S t f of
          None \<Rightarrow> []
        | Some nestedType \<Rightarrow>
            if rule f \<noteq> Some ''repeated'' \<and> messageOf S t (type f) = Some nestedType
            then strayFields n S nestedType (dotted fp (name f))
            else [dotted fp (name f)])"
      by (simp only: that(2) option.case if_not_P[OF that(3)] list.set insertI1)
    with that(1) show ?thesis unfolding strays_def strayFields.simps set_concat set_map
      by blast
  qed
  have strays_below: "q \<in> strays"
    if "f \<in> set (fieldsArray t)" "descendInto S t f = Some nt"
      "rule f \<noteq> Some ''repeated'' \<and> messageOf S t (type f) = Some nt"
      "q \<in> set (strayFields n S nt (dotted fp (name f)))" for f nt q
  proof -
    from that(4) have "q \<in> set (case descendInto S t f of
          None \<Rightarrow> []
        | Some nestedType \<Rightarrow>
            if rule f \<noteq> Some ''repeated'' \<and> messageOf S t (type f) = Some nestedType
            then strayFields n S nestedType (dotted fp (name f))
            else [dotted fp (name f)])"
      by (simp only: that(2) option.case if_P[OF that(3)])
    with that(1) show ?thesis unfolding strays_def strayFields.simps set_concat set_map
      by blast
  qed
  have main: "set fs \<subseteq> set (fieldsArray t) \<Longrightarrow> extractFields n S E t fp tp fs acc = Some r \<Longrightarrow>
         \<exists>new. r = acc @ new \<and> (\<forall>p \<in> set new. good p)" for fs acc r
  proof (induction fs arbitrary: acc)
    case Nil
    then show ?case by simp
  next
    case (Cons f fs)
    from Cons.prems(1) have f: "f \<in> set (fieldsArray t)"
      and fs: "set fs \<subseteq> set (fieldsArray t)"
      by auto
    from wn have d: "distinct (map name (fieldsArray t))" by simp
    from wn f have ne: "name f \<noteq> []" by (auto simp: list_all_iff)
    from templateFields_value[OF kvs f d] obtain v where
      v: "getEmptyValueForType m (type f) S t = Some v"
      and mv: "map_of kvs (name f) = Some (if rule f = Some ''repeated'' then JArray [] else v)"
      by blast
    from mv have key: "good (dotted fp (name f))" unfolding good_def keys_def
      by (blast dest: map_of_SomeD intro: keyPaths_key)
    let ?path = "dotted fp (name f)"
    let ?pushed = "if dotted tp (typeName t @ ''.'' @ name f) \<in> set E
                   then acc @ [?path] else acc"
    from key obtain p0 where p0: "?pushed = acc @ p0" "\<forall>p \<in> set p0. good p"
      by (cases "dotted tp (typeName t @ ''.'' @ name f) \<in> set E") auto
    show ?case
    proof (cases "descendInto S t f")
      case None
      with Cons.prems(2) have "extractFields n S E t fp tp fs ?pushed = Some r"
        by (simp add: Let_def)
      from Cons.IH[OF fs this] obtain p2 where
        p2: "r = ?pushed @ p2" "\<forall>p \<in> set p2. good p" by blast
      have "r = acc @ (p0 @ p2)" using p0(1) p2(1) by simp
      moreover have "\<forall>p \<in> set (p0 @ p2). good p" using p0(2) p2(2) by auto
      ultimately show ?thesis by blast
    next
      case (Some nt)
      with Cons.prems(2) obtain dp where
        dp: "extractOptionalFieldsRecursive n S E nt ?path (dotted tp (typeName t)) ?pushed
               = Some dp"
        and rest: "extractFields n S E t fp tp fs dp = Some r"
        by (auto simp: Let_def split: option.splits)
      from wn f Some have wn': "wellNamed n S nt" by (auto simp: list_all_iff)
      from ne have pne: "?path \<noteq> []" by (simp add: dotted_def)
      have "\<exists>p1. dp = ?pushed @ p1 \<and> (\<forall>p \<in> set p1. good p)"
      proof (cases "rule f \<noteq> Some ''repeated'' \<and> messageOf S t (type f) = Some nt")
        case True
        then have sing: "rule f \<noteq> Some ''repeated''"
          and mo: "messageOf S t (type f) = Some nt" by simp_all
        from v mo have g: "generateEmptyJsonTemplate m S nt = Some v"
          by (simp add: getEmptyValueForType_message)
        from mv sing have kv: "(name f, v) \<in> set kvs" by (auto dest: map_of_SomeD)
        have deep: "dotted ?path q \<in> keys" if "q \<in> set (keyPaths v)" for q
          unfolding keys_def dotted_dotted[OF ne] using keyPaths_deeper[OF kv that]
          by (rule imageI)
        from rec[OF wn' dp g] obtain p1 where
          p1: "dp = ?pushed @ p1"
            "\<forall>p \<in> set p1. p \<in> dotted ?path ` set (keyPaths v) \<or>
               (\<exists>q \<in> set (strayFields n S nt ?path). \<exists>x. p = q @ ''.'' @ x)"
          by blast
        have "good p" if "p \<in> set p1" for p
        proof -
          from p1(2) that consider
            (key) q where "q \<in> set (keyPaths v)" "p = dotted ?path q"
            | (stray) q x where "q \<in> set (strayFields n S nt ?path)" "p = q @ ''.'' @ x"
            by blast
          then show ?thesis
          proof cases
            case key
            with deep[of q] show ?thesis unfolding good_def by simp
          next
            case stray
            with strays_below[OF f Some True, of q] show ?thesis unfolding good_def by blast
          qed
        qed
        with p1(1) show ?thesis by blast
      next
        case False
        from extract_prefixed[OF pne dp] obtain p1 where
          p1: "dp = ?pushed @ p1" "\<forall>p \<in> set p1. \<exists>x. p = ?path @ ''.'' @ x" by blast
        have "good p" if "p \<in> set p1" for p
        proof -
          from p1(2) that obtain x where "p = ?path @ ''.'' @ x" by blast
          with strays_here[OF f Some False] show ?thesis unfolding good_def by blast
        qed
        with p1(1) show ?thesis by blast
      qed
      then obtain p1 where p1: "dp = ?pushed @ p1" "\<forall>p \<in> set p1. good p" by blast
      from Cons.IH[OF fs rest] obtain p2 where
        p2: "r = dp @ p2" "\<forall>p \<in> set p2. good p" by blast
      have "r = acc @ (p0 @ p1 @ p2)" using p0(1) p1(1) p2(1) by simp
      moreover have "\<forall>p \<in> set (p0 @ p1 @ p2). good p" using p0(2) p1(2) p2(2) by auto
      ultimately show ?thesis by blast
    qed
  qed
  from main[OF sub ex] show ?thesis unfolding good_def keys_def strays_def .
qed

lemma extract_paths:
  "wellNamed n S t \<Longrightarrow> extractOptionalFieldsRecursive n S E t fp tp acc = Some r \<Longrightarrow>
   generateEmptyJsonTemplate m S t = Some tpl \<Longrightarrow>
   \<exists>new. r = acc @ new \<and>
     (\<forall>p \<in> set new. p \<in> dotted fp ` set (keyPaths tpl) \<or>
        (\<exists>q \<in> set (strayFields n S t fp). \<exists>x. p = q @ ''.'' @ x))"
proof (induction n arbitrary: t fp tp acc r m tpl)
  case 0
  then show ?case by simp
next
  case (Suc n)
  from Suc.prems(3) obtain m' kvs where
    kvs: "templateFields m' S t (fieldsArray t) [] = Some kvs" and tpl: "tpl = JObject kvs"
    by (cases m) auto
  from Suc.prems(2) have ex: "extractFields n S E t fp tp (fieldsArray t) acc = Some r" by simp
  have "\<exists>new. r = acc @ new \<and>
     (\<forall>p \<in> set new. p \<in> dotted fp ` set (keyPaths (JObject kvs)) \<or>
        (\<exists>q \<in> set (strayFields (Suc n) S t fp). \<exists>x. p = q @ ''.'' @ x))"
    by (rule extractFields_paths[OF Suc.prems(1) kvs _ subset_refl ex]) (rule Suc.IH; assumption)
  with tpl show ?case by simp
qed

lemma services_wellNamed:
  "wellNamed (Suc (Suc 0)) servicesRoot mixedType"
  "wellNamed (Suc (Suc 0)) servicesRoot nestedOuterType"
  by (simp_all add: mixedType_def nestedOuterType_def entryType_def innerType_def
      descendInto_def servicesRoot_types(3))

lemma services_strayFields:
  "strayFields (Suc (Suc 0)) servicesRoot mixedType [] = [''entries'']"
  "strayFields (Suc (Suc 0)) servicesRoot nestedOuterType [] = []"
  by (simp_all add: mixedType_def nestedOuterType_def entryType_def innerType_def
      descendInto_def servicesRoot_types(3) messageOf_def scalarName_def primitiveCase_def
      timestampName_def resolveType_def dotted_def)


section \<open>Optional-field paths against the template\<close>

text \<open>
  C1 (as stated, refuted). The claim says that every path of the optional-field list
  addresses a key of the template of the same request type. For the method \<open>Do\<close> of
  \<open>repeatedProto\<close> the list is \<open>[items.x]\<close>, because the extractor descends through
  the repeated field \<open>items\<close>, while the template is \<open>{items: []}\<close>, in which no key
  \<open>x\<close> exists under \<open>items\<close>.
\<close>

theorem repeated_message_path_not_in_template:
  "getOptionalFieldsMap (Suc (Suc 0)) repeatedRoot repeatedProto = Some [(''Do'', [''items.x''])] \<and>
   parseProtoContent (Suc (Suc 0)) repeatedRoot = Some [(''Do'', JObject [(''items'', JArray [])])] \<and>
   ''items.x'' \<notin> set (keyPaths (JObject [(''items'', JArray [])]))"
proof -
  have v: "visitedMethods (rootNested repeatedRoot) = [(''Do'', Method ''Req'' ''Req'')]"
    by (simp add: repeatedRoot_def googleNamespace_def timestampType_def repeatedType_def
        repeatedItem_def)
  have l: "lookupType repeatedRoot ''Req'' = Some repeatedType"
    by (simp add: repeatedRoot_def)
  show ?thesis
    by (simp add: getOptionalFieldsMap_def parseProtoContent_def extractServices_visited
        extractOptionalFields_visited v l methodTemplate_def methodOptionalFields_def
        repeated_scan repeated_extract repeated_template
        del: generateEmptyJsonTemplate.simps)
qed

text \<open>
  C1 (amended). Within each message reached let the field names be non-empty and
  distinct. Then every dotted path produced by \<open>getOptionalFieldsFromTypeWithExplicit\<close>
  is a key path of the template produced by \<open>generateEmptyJsonTemplate\<close> for the
  same request type (each segment is a key of the object addressed by the segments
  before it), except the paths that lead through a field at which the two part: a field
  into whose message type the extractor descends while the field is repeated, or while
  the template generator gives it another value than the template of that message type.
  Such a path continues the path of that field, one of \<open>strayFields\<close>; every other
  path, also of a request type that has such fields, addresses a key. On a schema with
  acyclic message references the list and the template are both returned.
\<close>

theorem extracted_paths_address_template_keys:
  assumes "wellNamed n S t"
  shows "(\<forall>ps m tpl. getOptionalFieldsFromTypeWithExplicit n S t E = Some ps \<and>
              generateEmptyJsonTemplate m S t = Some tpl \<longrightarrow>
            (\<forall>p \<in> set ps. p \<in> set (keyPaths tpl) \<or>
               (\<exists>q \<in> set (strayFields n S t []). \<exists>x. p = q @ ''.'' @ x)))
       \<and> (descending S rk \<and> rk t < n \<longrightarrow>
            (\<exists>ps tpl. getOptionalFieldsFromTypeWithExplicit n S t E = Some ps \<and>
                      generateEmptyJsonTemplate n S t = Some tpl))"
proof (intro conjI allI impI)
  fix ps m tpl
  assume a: "getOptionalFieldsFromTypeWithExplicit n S t E = Some ps \<and>
             generateEmptyJsonTemplate m S t = Some tpl"
  then have "extractOptionalFieldsRecursive n S E t [] [] [] = Some ps"
    and "generateEmptyJsonTemplate m S t = Some tpl"
    by (simp_all add: getOptionalFieldsFromTypeWithExplicit_def)
  from extract_paths[OF assms this] have
    "\<forall>p \<in> set ps. p \<in> dotted [] ` set (keyPaths tpl) \<or>
       (\<exists>q \<in> set (strayFields n S t []). \<exists>x. p = q @ ''.'' @ x)"
    by simp
  moreover have "dotted [] ` set (keyPaths tpl) = set (keyPaths tpl)"
    by (simp add: dotted_def)
  ultimately show "\<forall>p \<in> set ps. p \<in> set (keyPaths tpl) \<or>
       (\<exists>q \<in> set (strayFields n S t []). \<exists>x. p = q @ ''.'' @ x)"
    by (simp only:)
next
  assume a: "descending S rk \<and> rk t < n"
  then have d: "descending S rk" and r: "rk t < n" by simp_all
  from generate_total_ranked[OF d r] extract_total_ranked[OF d r, of E "[]" "[]" "[]"]
  show "\<exists>ps tpl. getOptionalFieldsFromTypeWithExplicit n S t E = Some ps \<and>
                 generateEmptyJsonTemplate n S t = Some tpl"
    by (simp add: getOptionalFieldsFromTypeWithExplicit_def
        del: generateEmptyJsonTemplate.simps extractOptionalFieldsRecursive.simps)
qed

text \<open>
  The request type \<open>Req\<close> of the schema with two services has the repeated field
  \<open>entries\<close> of the message type \<open>Entry\<close> and the field \<open>n\<close>. Its list is
  \<open>entries.x\<close>, \<open>n\<close>; the one stray field is \<open>entries\<close>, so \<open>n\<close> is a key of the
  template, while \<open>entries.x\<close> is not. The request type \<open>Outer\<close> has no stray field,
  and its paths \<open>a.x\<close> and \<open>b.x\<close> are key paths of its template.
\<close>

theorem extracted_paths_address_template_keys_witness:
  "(\<exists>ps tpl.
      getOptionalFieldsFromTypeWithExplicit (Suc (Suc 0)) servicesRoot mixedType
        (parseExplicitOptionalFields servicesProto) = Some ps \<and>
      generateEmptyJsonTemplate (Suc (Suc 0)) servicesRoot mixedType = Some tpl \<and>
      ps = [''entries.x'', ''n''] \<and>
      strayFields (Suc (Suc 0)) servicesRoot mixedType [] = [''entries''] \<and>
      ''n'' \<in> set (keyPaths tpl) \<and> ''entries.x'' \<notin> set (keyPaths tpl)) \<and>
   (\<exists>ps tpl.
      getOptionalFieldsFromTypeWithExplicit (Suc (Suc 0)) servicesRoot nestedOuterType
        (parseExplicitOptionalFields servicesProto) = Some ps \<and>
      generateEmptyJsonTemplate (Suc (Suc 0)) servicesRoot nestedOuterType = Some tpl \<and>
      ps = [''a.x'', ''b.x''] \<and>
      strayFields (Suc (Suc 0)) servicesRoot nestedOuterType [] = [] \<and>
      set ps \<subseteq> set (keyPaths tpl))"
proof -
  let ?E = "parseExplicitOptionalFields servicesProto"
  note req = extracted_paths_address_template_keys[OF services_wellNamed(1),
      of ?E "rankOf servicesLevels"]
  note outer = extracted_paths_address_template_keys[OF services_wellNamed(2),
      of ?E "rankOf servicesLevels"]
  from req servicesRoot_descending obtain ps tpl where
    ps: "getOptionalFieldsFromTypeWithExplicit (Suc (Suc 0)) servicesRoot mixedType ?E
           = Some ps" and
    tpl: "generateEmptyJsonTemplate (Suc (Suc 0)) servicesRoot mixedType = Some tpl"
    by (auto simp: servicesRoot_ranks
        simp del: generateEmptyJsonTemplate.simps)
  from req ps tpl have law: "\<forall>p \<in> set ps. p \<in> set (keyPaths tpl) \<or>
      (\<exists>q \<in> set (strayFields (Suc (Suc 0)) servicesRoot mixedType []). \<exists>x. p = q @ ''.'' @ x)"
    by blast
  from ps have psv: "ps = [''entries.x'', ''n'']"
    by (simp add: servicesProto_scan servicesRoot_optional)
  from tpl have tplv: "tpl = JObject [(''entries'', JArray []), (''n'', JNumber 0)]"
    by (simp add: servicesRoot_templates del: generateEmptyJsonTemplate.simps)
  from law psv have "''n'' \<in> set (keyPaths tpl)"
    by (simp add: services_strayFields del: strayFields.simps)
  moreover from tplv have "''entries.x'' \<notin> set (keyPaths tpl)" by simp
  ultimately have first: "\<exists>ps tpl.
      getOptionalFieldsFromTypeWithExplicit (Suc (Suc 0)) servicesRoot mixedType ?E = Some ps \<and>
      generateEmptyJsonTemplate (Suc (Suc 0)) servicesRoot mixedType = Some tpl \<and>
      ps = [''entries.x'', ''n''] \<and>
      strayFields (Suc (Suc 0)) servicesRoot mixedType [] = [''entries''] \<and>
      ''n'' \<in> set (keyPaths tpl) \<and> ''entries.x'' \<notin> set (keyPaths tpl)"
    using ps tpl psv services_strayFields(1) by blast
  from outer servicesRoot_descending obtain ps' tpl' where
    ps': "getOptionalFieldsFromTypeWithExplicit (Suc (Suc 0)) servicesRoot nestedOuterType ?E
           = Some ps'" and
    tpl': "generateEmptyJsonTemplate (Suc (Suc 0)) servicesRoot nestedOuterType = Some tpl'"
    by (auto simp: servicesRoot_ranks
        simp del: generateEmptyJsonTemplate.simps)
  from outer ps' tpl' have "\<forall>p \<in> set ps'. p \<in> set (keyPaths tpl') \<or>
      (\<exists>q \<in> set (strayFields (Suc (Suc 0)) servicesRoot nestedOuterType []).
         \<exists>x. p = q @ ''.'' @ x)"
    by blast
  then have sub: "set ps' \<subseteq> set (keyPaths tpl')"
    by (auto simp: services_strayFields(2) simp del: strayFields.simps)
  from ps' have "ps' = [''a.x'', ''b.x'']"
    by (simp add: servicesProto_scan servicesRoot_optional)
  with ps' tpl' sub services_strayFields(2) have second: "\<exists>ps tpl.
      getOptionalFieldsFromTypeWithExplicit (Suc (Suc 0)) servicesRoot nestedOuterType ?E
        = Some ps \<and>
      generateEmptyJsonTemplate (Suc (Suc 0)) servicesRoot nestedOuterType = Some tpl \<and>
      ps = [''a.x'', ''b.x''] \<and>
      strayFields (Suc (Suc 0)) servicesRoot nestedOuterType [] = [] \<and>
      set ps \<subseteq> set (keyPaths tpl)"
    by blast
  from first second show ?thesis by (rule conjI)
qed

text \<open>
  C3 (the code at the failing input). \<open>Inner\<close> has the explicitly optional field \<open>x\<close>
  and is embedded in \<open>Outer\<close> as \<open>a\<close> and \<open>b\<close>, both messages declared at the top
  level. The scan records \<open>Inner.x\<close>. The extractor reports nothing for \<open>Outer\<close>, at
  every sufficient depth bound: with the fields as parsed it does not descend into
  \<open>Inner\<close>, which is not nested in \<open>Outer\<close>; with the fields linked it descends and
  looks up \<open>Outer.Inner.x\<close>, the chain of the embedding, which the scan never records
  for a top-level \<open>Inner\<close>. The template of \<open>Outer\<close> does have \<open>a.x\<close> and \<open>b.x\<close>.
  Only when \<open>Inner\<close> is declared inside \<open>Outer\<close> do the two keys agree and are both
  paths reported.
\<close>

theorem top_level_inner_optional_not_reported:
  "parseExplicitOptionalFields innerOuterProto = [''Inner.x''] \<and>
   (\<forall>n > 1. getOptionalFieldsFromTypeWithExplicit n innerOuterRoot outerType
               (parseExplicitOptionalFields innerOuterProto) = Some []) \<and>
   (\<forall>n > 1. getOptionalFieldsFromTypeWithExplicit n innerOuterRoot outerLinked
               (parseExplicitOptionalFields innerOuterProto) = Some []) \<and>
   generateEmptyJsonTemplate (Suc (Suc 0)) innerOuterRoot outerType =
     Some (JObject [(''a'', JObject [(''x'', JString '''')]),
                    (''b'', JObject [(''x'', JString '''')])]) \<and>
   parseExplicitOptionalFields nestedInnerProto = [''Outer.Inner.x''] \<and>
   getOptionalFieldsFromTypeWithExplicit (Suc (Suc 0)) nestedRoot nestedOuterType
     (parseExplicitOptionalFields nestedInnerProto) = Some [''a.x'', ''b.x'']"
proof -
  have "getOptionalFieldsFromTypeWithExplicit n innerOuterRoot t [''Inner.x''] = Some []"
    if "1 < n" and "getOptionalFieldsFromTypeWithExplicit (Suc (Suc 0)) innerOuterRoot t
                      [''Inner.x''] = Some []" for n t
    using that extract_mono[of "Suc (Suc 0)" n innerOuterRoot "[''Inner.x'']" t "[]" "[]" "[]" "[]"]
    by (simp add: getOptionalFieldsFromTypeWithExplicit_def Suc_le_eq)
  with innerOuter_extract show ?thesis
    by (simp add: innerOuter_scan innerOuter_template nested_scan nested_extract
        del: generateEmptyJsonTemplate.simps)
qed

text \<open>At the depth bound 5 the list for \<open>Outer\<close> is empty, linked or not.\<close>

theorem top_level_inner_optional_not_reported_witness:
  "map (\<lambda>t. getOptionalFieldsFromTypeWithExplicit 5 innerOuterRoot t
               (parseExplicitOptionalFields innerOuterProto)) [outerType, outerLinked]
     = [Some [], Some []]"
  using top_level_inner_optional_not_reported[THEN conjunct2, THEN conjunct1, THEN spec, of 5]
    top_level_inner_optional_not_reported[THEN conjunct2, THEN conjunct2, THEN conjunct1,
      THEN spec, of 5]
  by simp

end
